theory Spec2Isabelle
  imports Main
begin

section \<open>Data model\<close>

text \<open>
  A source position: 1-based line, 0-based column. Both are JavaScript numbers; the
  end-of-input step passes \<open>-1\<close> for both, so they are modelled as \<open>int\<close>.
\<close>

record Position =
  line :: int
  column :: int

text \<open>
  The tagged union \<open>MS.Token\<close>. Every variant carries the \<open>start\<close> and \<open>end\<close> of
  \<open>PositionRange\<close> (the field \<open>end\<close> is written \<open>endp\<close>);
  the three word variants also carry \<open>body\<close>.
\<close>

datatype Token =
    AND (start: Position) (endp: Position)
  | OR (start: Position) (endp: Position)
  | PIPE (start: Position) (endp: Position)
  | L (start: Position) (endp: Position)
  | LL (start: Position) (endp: Position)
  | R (start: Position) (endp: Position)
  | RR (start: Position) (endp: Position)
  | LPAREN (start: Position) (endp: Position)
  | RPAREN (start: Position) (endp: Position)
  | SPACE (start: Position) (endp: Position)
  | WORD (body: string) (start: Position) (endp: Position)
  | WORD_Q (body: string) (start: Position) (endp: Position)
  | WORD_DQ (body: string) (start: Position) (endp: Position)
  | EOF (start: Position) (endp: Position)

text \<open>The error value of the variant with position ranges (\<open>src/unnamed/part_000\<close>).\<close>

record TokenizeError =
  message :: string
  err_start :: Position
  err_end :: Position

text \<open>
  The automaton state of \<open>src/unnamed/part_000\<close>. The constructors whose tag is also a
  token tag carry the suffix \<open>_ctx\<close>.
\<close>

datatype TokenizerContext =
    INITIAL
  | ERROR TokenizeError
  | PREV_L "Token list" Position
  | PREV_R "Token list" Position
  | PREV_AND "Token list" Position
  | PREV_OR "Token list" Position
  | DEFAULT "Token list"
  | SPACE_ctx "Token list" Position Position
  | WORD_ctx "Token list" string Position Position
  | WORD_Q_ctx "Token list" string Position Position
  | WORD_DQ_ctx "Token list" string Position Position

text \<open>
  What a call of \<open>tokenize\<close> can do: return the token array, return an error value, or
  throw \<open>Error("must never called")\<close>.
\<close>

datatype 'e TokenizeResult = Tokens "Token list" | Failed 'e | MustNeverCalled

section \<open>Characters\<close>

text \<open>
  A JavaScript string is modelled as a \<open>string\<close>, a list of characters of type \<open>char\<close>;
  the code compares a character only with the ASCII characters named below and treats
  every other one as part of a word.
\<close>

abbreviation ch_tab :: char where "ch_tab \<equiv> CHR 0x09"
abbreviation ch_nl :: char where "ch_nl \<equiv> CHR 0x0A"
abbreviation ch_vt :: char where "ch_vt \<equiv> CHR 0x0B"
abbreviation ch_ff :: char where "ch_ff \<equiv> CHR 0x0C"
abbreviation ch_cr :: char where "ch_cr \<equiv> CHR 0x0D"
abbreviation ch_dquote :: char where "ch_dquote \<equiv> CHR 0x22"
abbreviation ch_quote :: char where "ch_quote \<equiv> CHR 0x27"

text \<open>The two string constants tested with \<open>includes\<close>.\<close>

definition whitespace :: string where
  "whitespace = [CHR '' '', ch_tab, ch_nl, ch_vt, ch_ff, ch_cr]"

definition delimiters :: string where
  "delimiters = whitespace @ ''<>()&|''"

text \<open>
  The parameter \<open>char\<close> of every state function is a string of length one taken from
  \<open>split("")\<close>, or the empty string of the end-of-input step: \<open>Some c\<close> or \<open>None\<close>.
  \<open>String.prototype.includes\<close> answers \<open>true\<close> for the empty string.
\<close>

definition js_includes :: "string \<Rightarrow> char option \<Rightarrow> bool" where
  "js_includes s ch = (case ch of None \<Rightarrow> True | Some c \<Rightarrow> c \<in> set s)"

text \<open>
  The string value of the parameter \<open>char\<close>, as in \<open>acc2 + char\<close> and in the word
  that starts with \<open>char\<close>.
\<close>

definition char_string :: "char option \<Rightarrow> string" where
  "char_string ch = (case ch of None \<Rightarrow> [] | Some c \<Rightarrow> [c])"

section \<open>The tokenizer of \<open>src/unnamed/part_000\<close>\<close>

text \<open>
  The state functions, in the order of the source's branches. The array \<open>acc\<close> is
  created by \<open>tokenizeInitial\<close> and only the current context refers to it, so
  \<open>acc.push(t)\<close> followed by a context that holds \<open>acc\<close> is that context with the list
  \<open>acc @ [t]\<close>. The object \<open>{ line, column }\<close> is the record of the two parameters.
\<close>

definition UnrecognizedToken :: "int \<Rightarrow> int \<Rightarrow> TokenizeError" where
  "UnrecognizedToken l c =
     \<lparr>message = ''Unrecognized token'',
      err_start = \<lparr>line = l, column = c\<rparr>,
      err_end = \<lparr>line = l, column = c\<rparr>\<rparr>"

definition UnterminatedString :: "Position \<Rightarrow> Position \<Rightarrow> TokenizeError" where
  "UnterminatedString s e = \<lparr>message = ''Unterminated string'', err_start = s, err_end = e\<rparr>"

definition tokenizeDefault :: "char option \<Rightarrow> int \<Rightarrow> int \<Rightarrow> Token list \<Rightarrow> TokenizerContext" where
  "tokenizeDefault ch l c acc =
     (let p = \<lparr>line = l, column = c\<rparr> in
      if ch \<noteq> None \<and> js_includes whitespace ch then SPACE_ctx acc p p
      else if ch = Some CHR ''<'' then PREV_L acc p
      else if ch = Some CHR ''>'' then PREV_R acc p
      else if ch = Some CHR ''&'' then PREV_AND acc p
      else if ch = Some CHR ''|'' then PREV_OR acc p
      else if ch = Some CHR ''('' then DEFAULT (acc @ [LPAREN p p])
      else if ch = Some CHR '')'' then DEFAULT (acc @ [RPAREN p p])
      else if ch = None then DEFAULT (acc @ [EOF p p])
      else if ch = Some ch_dquote then WORD_DQ_ctx acc [] p p
      else if ch = Some ch_quote then WORD_Q_ctx acc [] p p
      else WORD_ctx acc (char_string ch) p p)"

definition tokenizeInitial :: "char option \<Rightarrow> int \<Rightarrow> int \<Rightarrow> TokenizerContext" where
  "tokenizeInitial ch l c = tokenizeDefault ch l c []"

definition tokenizePrevL ::
  "char option \<Rightarrow> int \<Rightarrow> int \<Rightarrow> Token list \<Rightarrow> Position \<Rightarrow> TokenizerContext" where
  "tokenizePrevL ch l c acc s =
     (if ch = Some CHR ''<'' then DEFAULT (acc @ [LL s \<lparr>line = l, column = c\<rparr>])
      else tokenizeDefault ch l c (acc @ [L s s]))"

definition tokenizePrevR ::
  "char option \<Rightarrow> int \<Rightarrow> int \<Rightarrow> Token list \<Rightarrow> Position \<Rightarrow> TokenizerContext" where
  "tokenizePrevR ch l c acc s =
     (if ch = Some CHR ''>'' then DEFAULT (acc @ [RR s \<lparr>line = l, column = c\<rparr>])
      else tokenizeDefault ch l c (acc @ [R s s]))"

definition tokenizePrevAnd ::
  "char option \<Rightarrow> int \<Rightarrow> int \<Rightarrow> Token list \<Rightarrow> Position \<Rightarrow> TokenizerContext" where
  "tokenizePrevAnd ch l c acc s =
     (if ch = Some CHR ''&'' then DEFAULT (acc @ [AND s \<lparr>line = l, column = c\<rparr>])
      else ERROR (UnrecognizedToken l c))"

definition tokenizePrevOr ::
  "char option \<Rightarrow> int \<Rightarrow> int \<Rightarrow> Token list \<Rightarrow> Position \<Rightarrow> TokenizerContext" where
  "tokenizePrevOr ch l c acc s =
     (if ch = Some CHR ''|'' then DEFAULT (acc @ [OR s \<lparr>line = l, column = c\<rparr>])
      else tokenizeDefault ch l c (acc @ [PIPE s s]))"

definition tokenizeSpace ::
  "char option \<Rightarrow> int \<Rightarrow> int \<Rightarrow> Token list \<Rightarrow> Position \<Rightarrow> Position \<Rightarrow> TokenizerContext" where
  "tokenizeSpace ch l c acc s e =
     (if ch \<noteq> None \<and> js_includes whitespace ch then SPACE_ctx acc s \<lparr>line = l, column = c\<rparr>
      else tokenizeDefault ch l c (acc @ [SPACE s e]))"

definition tokenizeWord ::
  "char option \<Rightarrow> int \<Rightarrow> int \<Rightarrow> Token list \<Rightarrow> string \<Rightarrow> Position \<Rightarrow> Position
     \<Rightarrow> TokenizerContext" where
  "tokenizeWord ch l c acc acc2 s e =
     (if js_includes delimiters ch then tokenizeDefault ch l c (acc @ [WORD acc2 s e])
      else WORD_ctx acc (acc2 @ char_string ch) s \<lparr>line = l, column = c\<rparr>)"

definition tokenizeWordQ ::
  "char option \<Rightarrow> int \<Rightarrow> int \<Rightarrow> Token list \<Rightarrow> string \<Rightarrow> Position \<Rightarrow> Position
     \<Rightarrow> TokenizerContext" where
  "tokenizeWordQ ch l c acc acc2 s e =
     (if ch = None then ERROR (UnterminatedString s e)
      else if ch = Some ch_quote then DEFAULT (acc @ [WORD_Q acc2 s \<lparr>line = l, column = c\<rparr>])
      else WORD_Q_ctx acc (acc2 @ char_string ch) s \<lparr>line = l, column = c\<rparr>)"

definition tokenizeWordDQ ::
  "char option \<Rightarrow> int \<Rightarrow> int \<Rightarrow> Token list \<Rightarrow> string \<Rightarrow> Position \<Rightarrow> Position
     \<Rightarrow> TokenizerContext" where
  "tokenizeWordDQ ch l c acc acc2 s e =
     (if ch = None then ERROR (UnterminatedString s e)
      else if ch = Some ch_dquote then DEFAULT (acc @ [WORD_DQ acc2 s \<lparr>line = l, column = c\<rparr>])
      else WORD_DQ_ctx acc (acc2 @ char_string ch) s \<lparr>line = l, column = c\<rparr>)"

text \<open>
  \<open>tokenizerMap[context[0]](char, line, column, ...rest)\<close>: the state function of the
  context's tag, applied to the character and to the rest of the context. The map has no
  entry for \<open>ERROR\<close>, and \<open>tokenize\<close> returns before it would look one up; the model
  leaves an error context as it is.
\<close>

fun dispatch :: "TokenizerContext \<Rightarrow> char option \<Rightarrow> int \<Rightarrow> int \<Rightarrow> TokenizerContext" where
  "dispatch INITIAL ch l c = tokenizeInitial ch l c"
| "dispatch (PREV_L acc s) ch l c = tokenizePrevL ch l c acc s"
| "dispatch (PREV_R acc s) ch l c = tokenizePrevR ch l c acc s"
| "dispatch (PREV_AND acc s) ch l c = tokenizePrevAnd ch l c acc s"
| "dispatch (PREV_OR acc s) ch l c = tokenizePrevOr ch l c acc s"
| "dispatch (DEFAULT acc) ch l c = tokenizeDefault ch l c acc"
| "dispatch (SPACE_ctx acc s e) ch l c = tokenizeSpace ch l c acc s e"
| "dispatch (WORD_ctx acc acc2 s e) ch l c = tokenizeWord ch l c acc acc2 s e"
| "dispatch (WORD_Q_ctx acc acc2 s e) ch l c = tokenizeWordQ ch l c acc acc2 s e"
| "dispatch (WORD_DQ_ctx acc acc2 s e) ch l c = tokenizeWordDQ ch l c acc acc2 s e"
| "dispatch (ERROR err) ch l c = ERROR err"

text \<open>\<open>input.split("\n")\<close>: the pieces between newlines; never the empty array.\<close>

fun split_nl :: "string \<Rightarrow> string list" where
  "split_nl [] = [[]]"
| "split_nl (x # xs) =
     (if x = ch_nl then [] # split_nl xs
      else (case split_nl xs of [] \<Rightarrow> [[x]] | l # ls \<Rightarrow> (x # l) # ls))"

text \<open>
  The character stream of \<open>tokenize\<close>: every piece but the last gets its newline back,
  and every character is paired with its 1-based line and its 0-based column.
\<close>

definition chars :: "string \<Rightarrow> (char \<times> int \<times> int) list" where
  "chars input =
     (let a = split_nl input;
          ls = map (\<lambda>(i, l). if i = length a - 1 then l else l @ [ch_nl]) (enumerate 0 a)
      in concat (map (\<lambda>(ln, l). map (\<lambda>(col, ch). (ch, int ln + 1, int col)) (enumerate 0 l))
                     (enumerate 0 ls)))"

text \<open>
  The \<open>for\<close> loop of \<open>tokenize\<close>: one state function per character; the first \<open>ERROR\<close>
  context ends the loop (the source returns its error there).
\<close>

fun loop :: "TokenizerContext \<Rightarrow> (char \<times> int \<times> int) list \<Rightarrow> TokenizerContext" where
  "loop ctx [] = ctx"
| "loop ctx ((ch, l, c) # rest) =
     (case dispatch ctx (Some ch) l c of
        ERROR err \<Rightarrow> ERROR err
      | nextContext \<Rightarrow> loop nextContext rest)"

text \<open>The step after the loop, fed the empty string and the coordinates \<open>-1\<close>, \<open>-1\<close>.\<close>

definition finish :: "TokenizerContext \<Rightarrow> TokenizerContext" where
  "finish ctx = dispatch ctx None (- 1) (- 1)"

definition tokenize :: "string \<Rightarrow> TokenizeError TokenizeResult" where
  "tokenize input =
     (case loop INITIAL (chars input) of
        ERROR err \<Rightarrow> Failed err
      | ctx \<Rightarrow>
          (case finish ctx of
             ERROR err \<Rightarrow> Failed err
           | DEFAULT acc \<Rightarrow> Tokens acc
           | _ \<Rightarrow> MustNeverCalled))"

section \<open>The tokenizer of \<open>src/src/index.ts\<close>\<close>

text \<open>
  The second variant keeps no position range for whitespace and quoted strings, has no
  \<open>SPACE\<close> token (the token type is shared here; this variant never builds a
  \<open>SPACE\<close>), and its error value is a single point. Its definitions carry the suffix
  \<open>_idx\<close>.
\<close>

record TokenizeError_idx =
  message_idx :: string
  line_idx :: int
  column_idx :: int

datatype TokenizerContext_idx =
    INITIAL_idx
  | ERROR_idx TokenizeError_idx
  | SPACE_idx "Token list"
  | PREV_L_idx "Token list" Position
  | PREV_R_idx "Token list" Position
  | PREV_AND_idx "Token list" Position
  | PREV_OR_idx "Token list" Position
  | DEFAULT_idx "Token list"
  | WORD_idx "Token list" string Position Position
  | WORD_Q_idx "Token list" string Position
  | WORD_DQ_idx "Token list" string Position

definition UnrecognizedToken_idx :: "int \<Rightarrow> int \<Rightarrow> TokenizeError_idx" where
  "UnrecognizedToken_idx l c =
     \<lparr>message_idx = ''Unrecognized token'', line_idx = l, column_idx = c\<rparr>"

definition UnterminatedString_idx :: "int \<Rightarrow> int \<Rightarrow> TokenizeError_idx" where
  "UnterminatedString_idx l c =
     \<lparr>message_idx = ''Unterminated string'', line_idx = l, column_idx = c\<rparr>"

definition tokenizeDefault_idx ::
  "char option \<Rightarrow> int \<Rightarrow> int \<Rightarrow> Token list \<Rightarrow> TokenizerContext_idx" where
  "tokenizeDefault_idx ch l c acc =
     (let p = \<lparr>line = l, column = c\<rparr> in
      if ch \<noteq> None \<and> js_includes whitespace ch then SPACE_idx acc
      else if ch = Some CHR ''<'' then PREV_L_idx acc p
      else if ch = Some CHR ''>'' then PREV_R_idx acc p
      else if ch = Some CHR ''&'' then PREV_AND_idx acc p
      else if ch = Some CHR ''|'' then PREV_OR_idx acc p
      else if ch = Some CHR ''('' then DEFAULT_idx (acc @ [LPAREN p p])
      else if ch = Some CHR '')'' then DEFAULT_idx (acc @ [RPAREN p p])
      else if ch = None then DEFAULT_idx (acc @ [EOF p p])
      else if ch = Some ch_dquote then WORD_DQ_idx acc [] p
      else if ch = Some ch_quote then WORD_Q_idx acc [] p
      else WORD_idx acc (char_string ch) p p)"

definition tokenizeInitial_idx :: "char option \<Rightarrow> int \<Rightarrow> int \<Rightarrow> TokenizerContext_idx" where
  "tokenizeInitial_idx ch l c = tokenizeDefault_idx ch l c []"

definition tokenizeSpace_idx ::
  "char option \<Rightarrow> int \<Rightarrow> int \<Rightarrow> Token list \<Rightarrow> TokenizerContext_idx" where
  "tokenizeSpace_idx ch l c acc =
     (if ch \<noteq> None \<and> js_includes whitespace ch then SPACE_idx acc
      else tokenizeDefault_idx ch l c acc)"

definition tokenizePrevL_idx ::
  "char option \<Rightarrow> int \<Rightarrow> int \<Rightarrow> Token list \<Rightarrow> Position \<Rightarrow> TokenizerContext_idx" where
  "tokenizePrevL_idx ch l c acc s =
     (if ch = Some CHR ''<'' then DEFAULT_idx (acc @ [LL s \<lparr>line = l, column = c\<rparr>])
      else tokenizeDefault_idx ch l c (acc @ [L s s]))"

definition tokenizePrevR_idx ::
  "char option \<Rightarrow> int \<Rightarrow> int \<Rightarrow> Token list \<Rightarrow> Position \<Rightarrow> TokenizerContext_idx" where
  "tokenizePrevR_idx ch l c acc s =
     (if ch = Some CHR ''>'' then DEFAULT_idx (acc @ [RR s \<lparr>line = l, column = c\<rparr>])
      else tokenizeDefault_idx ch l c (acc @ [R s s]))"

definition tokenizePrevAnd_idx ::
  "char option \<Rightarrow> int \<Rightarrow> int \<Rightarrow> Token list \<Rightarrow> Position \<Rightarrow> TokenizerContext_idx" where
  "tokenizePrevAnd_idx ch l c acc s =
     (if ch = Some CHR ''&'' then DEFAULT_idx (acc @ [AND s \<lparr>line = l, column = c\<rparr>])
      else ERROR_idx (UnrecognizedToken_idx l c))"

definition tokenizePrevOr_idx ::
  "char option \<Rightarrow> int \<Rightarrow> int \<Rightarrow> Token list \<Rightarrow> Position \<Rightarrow> TokenizerContext_idx" where
  "tokenizePrevOr_idx ch l c acc s =
     (if ch = Some CHR ''|'' then DEFAULT_idx (acc @ [OR s \<lparr>line = l, column = c\<rparr>])
      else tokenizeDefault_idx ch l c (acc @ [PIPE s s]))"

definition tokenizeWord_idx ::
  "char option \<Rightarrow> int \<Rightarrow> int \<Rightarrow> Token list \<Rightarrow> string \<Rightarrow> Position \<Rightarrow> Position
     \<Rightarrow> TokenizerContext_idx" where
  "tokenizeWord_idx ch l c acc acc2 s e =
     (if js_includes delimiters ch then tokenizeDefault_idx ch l c (acc @ [WORD acc2 s e])
      else WORD_idx acc (acc2 @ char_string ch) s \<lparr>line = l, column = c\<rparr>)"

definition tokenizeWordQ_idx ::
  "char option \<Rightarrow> int \<Rightarrow> int \<Rightarrow> Token list \<Rightarrow> string \<Rightarrow> Position \<Rightarrow> TokenizerContext_idx" where
  "tokenizeWordQ_idx ch l c acc acc2 s =
     (if ch = None then ERROR_idx (UnterminatedString_idx l c)
      else if ch = Some ch_quote then DEFAULT_idx (acc @ [WORD_Q acc2 s \<lparr>line = l, column = c\<rparr>])
      else WORD_Q_idx acc (acc2 @ char_string ch) s)"

text \<open>The last branch builds a \<open>"WORD_Q"\<close> context, as the source does.\<close>

definition tokenizeWordDQ_idx ::
  "char option \<Rightarrow> int \<Rightarrow> int \<Rightarrow> Token list \<Rightarrow> string \<Rightarrow> Position \<Rightarrow> TokenizerContext_idx" where
  "tokenizeWordDQ_idx ch l c acc acc2 s =
     (if ch = None then ERROR_idx (UnterminatedString_idx l c)
      else if ch = Some ch_dquote then DEFAULT_idx (acc @ [WORD_DQ acc2 s \<lparr>line = l, column = c\<rparr>])
      else WORD_Q_idx acc (acc2 @ char_string ch) s)"

fun dispatch_idx ::
  "TokenizerContext_idx \<Rightarrow> char option \<Rightarrow> int \<Rightarrow> int \<Rightarrow> TokenizerContext_idx" where
  "dispatch_idx INITIAL_idx ch l c = tokenizeInitial_idx ch l c"
| "dispatch_idx (SPACE_idx acc) ch l c = tokenizeSpace_idx ch l c acc"
| "dispatch_idx (PREV_L_idx acc s) ch l c = tokenizePrevL_idx ch l c acc s"
| "dispatch_idx (PREV_R_idx acc s) ch l c = tokenizePrevR_idx ch l c acc s"
| "dispatch_idx (PREV_AND_idx acc s) ch l c = tokenizePrevAnd_idx ch l c acc s"
| "dispatch_idx (PREV_OR_idx acc s) ch l c = tokenizePrevOr_idx ch l c acc s"
| "dispatch_idx (DEFAULT_idx acc) ch l c = tokenizeDefault_idx ch l c acc"
| "dispatch_idx (WORD_idx acc acc2 s e) ch l c = tokenizeWord_idx ch l c acc acc2 s e"
| "dispatch_idx (WORD_Q_idx acc acc2 s) ch l c = tokenizeWordQ_idx ch l c acc acc2 s"
| "dispatch_idx (WORD_DQ_idx acc acc2 s) ch l c = tokenizeWordDQ_idx ch l c acc acc2 s"
| "dispatch_idx (ERROR_idx err) ch l c = ERROR_idx err"

text \<open>
  The character stream of this variant: the pieces of \<open>split("\n")\<close> are numbered as
  they are, so no newline character reaches the automaton.
\<close>

definition chars_idx :: "string \<Rightarrow> (char \<times> int \<times> int) list" where
  "chars_idx input =
     concat (map (\<lambda>(ln, l). map (\<lambda>(col, ch). (ch, int ln + 1, int col)) (enumerate 0 l))
                 (enumerate 0 (split_nl input)))"

fun loop_idx ::
  "TokenizerContext_idx \<Rightarrow> (char \<times> int \<times> int) list \<Rightarrow> TokenizerContext_idx" where
  "loop_idx ctx [] = ctx"
| "loop_idx ctx ((ch, l, c) # rest) =
     (case dispatch_idx ctx (Some ch) l c of
        ERROR_idx err \<Rightarrow> ERROR_idx err
      | nextContext \<Rightarrow> loop_idx nextContext rest)"

definition finish_idx :: "TokenizerContext_idx \<Rightarrow> TokenizerContext_idx" where
  "finish_idx ctx = dispatch_idx ctx None (- 1) (- 1)"

definition tokenize_idx :: "string \<Rightarrow> TokenizeError_idx TokenizeResult" where
  "tokenize_idx input =
     (case loop_idx INITIAL_idx (chars_idx input) of
        ERROR_idx err \<Rightarrow> Failed err
      | ctx \<Rightarrow>
          (case finish_idx ctx of
             ERROR_idx err \<Rightarrow> Failed err
           | DEFAULT_idx acc \<Rightarrow> Tokens acc
           | _ \<Rightarrow> MustNeverCalled))"

section \<open>Definitions used to state and prove the properties\<close>

subsection \<open>Positions in the character stream\<close>

text \<open>
  The character stream written as one recursion over the input that carries the current
  line and column: a newline is the last character of its line, and the next character
  is at column 0 of the next line. \<open>chars_number\<close> below proves \<open>chars input\<close> equal to
  \<open>number 1 0 input\<close>. \<open>restore_nl\<close> and \<open>number_lines\<close> name the two stages of
  \<open>chars\<close>, and \<open>advance\<close> gives the line and column that follow a piece of text.
\<close>

fun number :: "int \<Rightarrow> int \<Rightarrow> string \<Rightarrow> (char \<times> int \<times> int) list" where
  "number l c [] = []"
| "number l c (x # xs) =
     (x, l, c) # (if x = ch_nl then number (l + 1) 0 xs else number l (c + 1) xs)"

definition restore_nl :: "string list \<Rightarrow> string list" where
  "restore_nl a = map (\<lambda>(i, l). if i = length a - 1 then l else l @ [ch_nl]) (enumerate 0 a)"

definition number_lines :: "nat \<Rightarrow> string list \<Rightarrow> (char \<times> int \<times> int) list" where
  "number_lines n ls =
     concat (map (\<lambda>(ln, l). map (\<lambda>(col, ch). (ch, int ln + 1, int col)) (enumerate 0 l))
                 (enumerate n ls))"

fun advance :: "int \<times> int \<Rightarrow> string \<Rightarrow> int \<times> int" where
  "advance (l, c) [] = (l, c)"
| "advance (l, c) (x # xs) = advance (if x = ch_nl then (l + 1, 0) else (l, c + 1)) xs"

text \<open>
  The position of an element of the character stream, and the order of positions: line
  first, column second.
\<close>

definition pos :: "char \<times> int \<times> int \<Rightarrow> Position" where
  "pos x = \<lparr>line = fst (snd x), column = snd (snd x)\<rparr>"

definition pos_le :: "Position \<Rightarrow> Position \<Rightarrow> bool" where
  "pos_le p q = (line p < line q \<or> (line p = line q \<and> column p \<le> column q))"

definition pos_less :: "Position \<Rightarrow> Position \<Rightarrow> bool" where
  "pos_less p q = (line p < line q \<or> (line p = line q \<and> column p < column q))"

text \<open>
  The literal source text of a position range: the characters of the input whose
  positions lie between \<open>start\<close> and \<open>end\<close>, both included, in input order.
\<close>

definition in_range :: "Position \<Rightarrow> Position \<Rightarrow> char \<times> int \<times> int \<Rightarrow> bool" where
  "in_range s e x = (pos_le s (pos x) \<and> pos_le (pos x) e)"

definition source_text :: "string \<Rightarrow> Position \<Rightarrow> Position \<Rightarrow> string" where
  "source_text input s e = map fst (filter (in_range s e) (chars input))"

subsection \<open>Token lists\<close>

text \<open>
  The token list a context carries, the absence of \<open>EOF\<close> tokens, and the position
  that the end-of-input step stamps on the \<open>EOF\<close> token.
\<close>

fun acc_of :: "TokenizerContext \<Rightarrow> Token list" where
  "acc_of INITIAL = []"
| "acc_of (ERROR err) = []"
| "acc_of (PREV_L acc s) = acc"
| "acc_of (PREV_R acc s) = acc"
| "acc_of (PREV_AND acc s) = acc"
| "acc_of (PREV_OR acc s) = acc"
| "acc_of (DEFAULT acc) = acc"
| "acc_of (SPACE_ctx acc s e) = acc"
| "acc_of (WORD_ctx acc acc2 s e) = acc"
| "acc_of (WORD_Q_ctx acc acc2 s e) = acc"
| "acc_of (WORD_DQ_ctx acc acc2 s e) = acc"

fun acc_of_idx :: "TokenizerContext_idx \<Rightarrow> Token list" where
  "acc_of_idx INITIAL_idx = []"
| "acc_of_idx (ERROR_idx err) = []"
| "acc_of_idx (SPACE_idx acc) = acc"
| "acc_of_idx (PREV_L_idx acc s) = acc"
| "acc_of_idx (PREV_R_idx acc s) = acc"
| "acc_of_idx (PREV_AND_idx acc s) = acc"
| "acc_of_idx (PREV_OR_idx acc s) = acc"
| "acc_of_idx (DEFAULT_idx acc) = acc"
| "acc_of_idx (WORD_idx acc acc2 s e) = acc"
| "acc_of_idx (WORD_Q_idx acc acc2 s) = acc"
| "acc_of_idx (WORD_DQ_idx acc acc2 s) = acc"

definition no_eof :: "Token list \<Rightarrow> bool" where
  "no_eof ts = (\<forall>t \<in> set ts. \<not> is_EOF t)"

definition eof_position :: Position where
  "eof_position = \<lparr>line = - 1, column = - 1\<rparr>"

subsection \<open>Loop invariants\<close>

text \<open>
  A token covers a segment of the character stream when the segment is not empty and the
  token's range runs from the position of its first character to the position of its
  last. A token list tiles a piece of the stream when the piece is the concatenation of
  segments covered by the tokens, one each and in order. \<open>open_at\<close> adds the pending
  token of a context: the tokens tile the front of the consumed characters, and the
  stored start and end are the positions of the first and the last of the others.
\<close>

definition covers :: "Token \<Rightarrow> (char \<times> int \<times> int) list \<Rightarrow> bool" where
  "covers t seg = (seg \<noteq> [] \<and> start t = pos (hd seg) \<and> endp t = pos (last seg))"

definition tiled :: "Token list \<Rightarrow> (char \<times> int \<times> int) list \<Rightarrow> bool" where
  "tiled acc pre = (\<exists>segs. list_all2 covers acc segs \<and> concat segs = pre)"

definition open_at ::
  "Token list \<Rightarrow> Position \<Rightarrow> Position \<Rightarrow> (char \<times> int \<times> int) list \<Rightarrow> bool" where
  "open_at acc s e pre =
     (\<exists>front seg. pre = front @ seg \<and> tiled acc front \<and> seg \<noteq> []
        \<and> s = pos (hd seg) \<and> e = pos (last seg))"

fun tiling_inv :: "TokenizerContext \<Rightarrow> (char \<times> int \<times> int) list \<Rightarrow> bool" where
  "tiling_inv INITIAL pre = (pre = [])"
| "tiling_inv (ERROR err) pre = True"
| "tiling_inv (PREV_L acc s) pre = open_at acc s s pre"
| "tiling_inv (PREV_R acc s) pre = open_at acc s s pre"
| "tiling_inv (PREV_AND acc s) pre = open_at acc s s pre"
| "tiling_inv (PREV_OR acc s) pre = open_at acc s s pre"
| "tiling_inv (DEFAULT acc) pre = tiled acc pre"
| "tiling_inv (SPACE_ctx acc s e) pre = open_at acc s e pre"
| "tiling_inv (WORD_ctx acc acc2 s e) pre = open_at acc s e pre"
| "tiling_inv (WORD_Q_ctx acc acc2 s e) pre = open_at acc s e pre"
| "tiling_inv (WORD_DQ_ctx acc acc2 s e) pre = open_at acc s e pre"

text \<open>
  Inside a quoted string: the stored start is the position of a quote \<open>q\<close> of the
  consumed characters, the characters after it are the accumulated text, which holds no
  \<open>q\<close>, and the stored end is the position of the last consumed character.
\<close>

definition open_quote ::
  "char \<Rightarrow> string \<Rightarrow> Position \<Rightarrow> Position \<Rightarrow> (char \<times> int \<times> int) list \<Rightarrow> bool" where
  "open_quote q acc2 s e cs =
     (\<exists>pre rest. cs = pre @ (q, line s, column s) # rest \<and> map fst rest = acc2
        \<and> q \<notin> set acc2 \<and> e = pos (last cs))"

fun quote_inv :: "TokenizerContext \<Rightarrow> (char \<times> int \<times> int) list \<Rightarrow> bool" where
  "quote_inv (WORD_Q_ctx acc acc2 s e) cs = open_quote ch_quote acc2 s e cs"
| "quote_inv (WORD_DQ_ctx acc acc2 s e) cs = open_quote ch_dquote acc2 s e cs"
| "quote_inv ctx cs = True"

section \<open>The character stream, position by position\<close>

lemma split_nl_nonempty: "split_nl xs \<noteq> []"
  by (induction xs) (auto split: list.splits)

lemma split_nl_no_newline: "ch_nl \<notin> set l \<Longrightarrow> split_nl l = [l]"
  by (induction l) auto

lemma split_nl_first_newline:
  "ch_nl \<notin> set l \<Longrightarrow> split_nl (l @ ch_nl # rest) = l # split_nl rest"
  by (induction l) auto

lemma restore_nl_single: "restore_nl [l] = [l]"
  by (simp add: restore_nl_def)

lemma restore_nl_Cons:
  assumes "a \<noteq> []"
  shows "restore_nl (l # a) = (l @ [ch_nl]) # restore_nl a"
proof -
  have len: "length (restore_nl (l # a)) = length ((l @ [ch_nl]) # restore_nl a)"
    by (simp add: restore_nl_def)
  have "restore_nl (l # a) ! i = ((l @ [ch_nl]) # restore_nl a) ! i"
    if "i < length (l # a)" for i
  proof (cases i)
    case 0
    with assms show ?thesis by (cases a) (simp_all add: restore_nl_def)
  next
    case (Suc j)
    with that have "j < length a" by simp
    then show ?thesis using Suc assms
      by (auto simp add: restore_nl_def nth_enumerate_eq)
  qed
  with len show ?thesis
    by (intro nth_equalityI) (simp_all add: restore_nl_def)
qed

lemma number_lines_Cons:
  "number_lines n (l # ls) =
     map (\<lambda>(col, ch). (ch, int n + 1, int col)) (enumerate 0 l) @ number_lines (Suc n) ls"
  by (simp add: number_lines_def)

lemma number_lines_Nil: "number_lines n [] = []"
  by (simp add: number_lines_def)

lemma number_line:
  "ch_nl \<notin> set l \<Longrightarrow>
   number ln (int k) (l @ rest) =
     map (\<lambda>(col, ch). (ch, ln, int col)) (enumerate k l) @ number ln (int (k + length l)) rest"
proof (induction l arbitrary: k)
  case Nil
  then show ?case by simp
next
  case (Cons x l)
  from Cons.prems have "x \<noteq> ch_nl" "ch_nl \<notin> set l" by auto
  with Cons.IH [of "Suc k"] show ?case
    by (simp add: add.commute)
qed

lemma enumerate_snoc:
  "enumerate k (l @ [x]) = enumerate k l @ [(k + length l, x)]"
  by (simp add: enumerate_append_eq)

lemma number_number_lines:
  "number (int n + 1) 0 input = number_lines n (restore_nl (split_nl input))"
proof (induction "length input" arbitrary: input n rule: less_induct)
  case less
  show ?case
  proof (cases "ch_nl \<in> set input")
    case False
    then have "split_nl input = [input]" by (rule split_nl_no_newline)
    moreover from False have "number (int n + 1) (int 0) (input @ []) =
       map (\<lambda>(col, ch). (ch, int n + 1, int col)) (enumerate 0 input) @ number (int n + 1) (int (0 + length input)) []"
      by (rule number_line)
    ultimately show ?thesis
      by (simp add: restore_nl_single number_lines_Cons number_lines_Nil)
  next
    case True
    then obtain l rest where input: "input = l @ ch_nl # rest" and l: "ch_nl \<notin> set l"
      by (auto dest: split_list_first)
    have sp: "split_nl input = l # split_nl rest"
      unfolding input using l by (rule split_nl_first_newline)
    have re: "restore_nl (split_nl input) = (l @ [ch_nl]) # restore_nl (split_nl rest)"
      unfolding sp by (rule restore_nl_Cons) (rule split_nl_nonempty)
    have "length rest < length input" by (simp add: input)
    then have IH: "number (int (Suc n) + 1) 0 rest = number_lines (Suc n) (restore_nl (split_nl rest))"
      by (rule less)
    have "number (int n + 1) (int 0) (l @ ch_nl # rest) =
       map (\<lambda>(col, ch). (ch, int n + 1, int col)) (enumerate 0 l)
         @ number (int n + 1) (int (0 + length l)) (ch_nl # rest)"
      using l by (rule number_line)
    then have "number (int n + 1) 0 input =
       map (\<lambda>(col, ch). (ch, int n + 1, int col)) (enumerate 0 l)
         @ (ch_nl, int n + 1, int (length l)) # number (int n + 1 + 1) 0 rest"
      unfolding input by simp
    also have "\<dots> = map (\<lambda>(col, ch). (ch, int n + 1, int col)) (enumerate 0 (l @ [ch_nl]))
         @ number (int (Suc n) + 1) 0 rest"
      by (simp add: enumerate_snoc add.commute)
    also have "\<dots> = number_lines n (restore_nl (split_nl input))"
      by (simp only: re number_lines_Cons IH)
    finally show ?thesis .
  qed
qed

lemma chars_number: "chars input = number 1 0 input"
proof -
  have "chars input = number_lines 0 (restore_nl (split_nl input))"
    by (simp add: chars_def number_lines_def restore_nl_def Let_def)
  with number_number_lines [of 0 input] show ?thesis by simp
qed

lemma number_append:
  "number l c (xs @ ys) = number l c xs @ number (fst (advance (l, c) xs)) (snd (advance (l, c) xs)) ys"
  by (induction xs arbitrary: l c) simp_all

lemma length_number [simp]: "length (number l c xs) = length xs"
  by (induction xs arbitrary: l c) simp_all

lemma map_fst_number [simp]: "map fst (number l c xs) = xs"
  by (induction xs arbitrary: l c) simp_all

lemma chars_append:
  "chars (xs @ ys) = chars xs @ number (fst (advance (1, 0) xs)) (snd (advance (1, 0) xs)) ys"
  by (simp add: chars_number number_append)

lemma chars_nth_split:
  assumes "chars (pre @ x # rest) ! length pre = (x', l, c)"
  shows "\<exists>more. chars (pre @ x # rest) = chars pre @ (x, l, c) # more"
proof -
  obtain l' c' where adv: "advance (1, 0) pre = (l', c')" by (cases "advance (1, 0) pre")
  have eq: "chars (pre @ x # rest) = chars pre @ (x, l', c') # number (if x = ch_nl then l' + 1 else l') (if x = ch_nl then 0 else c' + 1) rest"
    by (simp add: chars_append adv)
  have "length (chars pre) = length pre" by (simp add: chars_number)
  then have "chars (pre @ x # rest) ! length pre = (x, l', c')"
    by (simp add: eq nth_append)
  with assms have "l' = l" "c' = c" by simp_all
  with eq show ?thesis by blast
qed




lemma pos_triple [simp]: "pos (ch, l, c) = \<lparr>line = l, column = c\<rparr>"
  by (simp add: pos_def)

lemma pos_le_refl [simp]: "pos_le p p"
  by (simp add: pos_le_def)

lemma pos_less_le: "pos_less p q \<Longrightarrow> pos_le p q"
  by (auto simp: pos_less_def pos_le_def)

lemma pos_less_not_le: "pos_less p q \<Longrightarrow> \<not> pos_le q p"
  by (auto simp: pos_less_def pos_le_def)

lemma number_lower_bound:
  "x \<in> set (number l c xs) \<Longrightarrow> pos_le \<lparr>line = l, column = c\<rparr> (pos x)"
proof (induction xs arbitrary: l c)
  case Nil
  then show ?case by simp
next
  case (Cons y ys)
  show ?case
  proof (cases "x = (y, l, c)")
    case True
    then show ?thesis by simp
  next
    case False
    with Cons.prems have "x \<in> set (number (l + 1) 0 ys) \<or> x \<in> set (number l (c + 1) ys)"
      by (auto split: if_splits)
    then have "pos_le \<lparr>line = l + 1, column = 0\<rparr> (pos x)
        \<or> pos_le \<lparr>line = l, column = c + 1\<rparr> (pos x)"
      using Cons.IH by blast
    then show ?thesis by (auto simp: pos_le_def)
  qed
qed

lemma sorted_number: "sorted_wrt (\<lambda>x y. pos_less (pos x) (pos y)) (number l c xs)"
proof (induction xs arbitrary: l c)
  case Nil
  show ?case by simp
next
  case (Cons y ys)
  have "pos_less \<lparr>line = l, column = c\<rparr> (pos x)"
    if "x \<in> set (if y = ch_nl then number (l + 1) 0 ys else number l (c + 1) ys)" for x
  proof -
    from that have "pos_le \<lparr>line = l + 1, column = 0\<rparr> (pos x)
        \<or> pos_le \<lparr>line = l, column = c + 1\<rparr> (pos x)"
      by (auto split: if_splits dest: number_lower_bound)
    then show ?thesis by (auto simp: pos_le_def pos_less_def)
  qed
  with Cons.IH show ?case by simp
qed

section \<open>The loop and the end-of-input step\<close>

lemma no_eof_simps [simp]:
  "no_eof []" "no_eof (ts @ us) = (no_eof ts \<and> no_eof us)" "no_eof (t # ts) = (\<not> is_EOF t \<and> no_eof ts)"
  by (auto simp: no_eof_def)

lemma loop_invariant:
  assumes "P ctx pre"
    and "\<And>err pre. P (ERROR err) pre"
    and "\<And>ctx pre ch l c. P ctx pre \<Longrightarrow> P (dispatch ctx (Some ch) l c) (pre @ [(ch, l, c)])"
  shows "P (loop ctx xs) (pre @ xs)"
  using assms(1)
proof (induction xs arbitrary: ctx pre)
  case Nil
  then show ?case by simp
next
  case (Cons x xs)
  obtain ch l c where x: "x = (ch, l, c)" by (cases x)
  have step: "P (dispatch ctx (Some ch) l c) (pre @ [(ch, l, c)])"
    using Cons.prems by (rule assms(3))
  show ?case
  proof (cases "\<exists>err. dispatch ctx (Some ch) l c = ERROR err")
    case True
    then show ?thesis using assms(2) by (auto simp: x)
  next
    case False
    then have "loop ctx (x # xs) = loop (dispatch ctx (Some ch) l c) xs"
      by (simp add: x split: TokenizerContext.splits)
    moreover have "P (loop (dispatch ctx (Some ch) l c) xs) ((pre @ [(ch, l, c)]) @ xs)"
      using step by (rule Cons.IH)
    ultimately show ?thesis by (simp add: x)
  qed
qed

lemma loop_ERROR [simp]: "loop (ERROR err) xs = ERROR err"
  by (induction xs) auto

lemma loop_append: "loop ctx (xs @ ys) = loop (loop ctx xs) ys"
proof (induction xs arbitrary: ctx)
  case Nil
  show ?case by simp
next
  case (Cons x xs)
  obtain ch l c where x: "x = (ch, l, c)" by (cases x)
  show ?case
  proof (cases "\<exists>err. dispatch ctx (Some ch) l c = ERROR err")
    case True
    then show ?thesis by (auto simp: x)
  next
    case False
    then have "\<And>zs. loop ctx (x # zs) = loop (dispatch ctx (Some ch) l c) zs"
      by (simp add: x split: TokenizerContext.splits)
    then show ?thesis using Cons.IH by simp
  qed
qed

lemma tokenizeDefault_no_eof:
  "no_eof acc \<Longrightarrow> no_eof (acc_of (tokenizeDefault (Some ch) l c acc))"
  by (simp add: tokenizeDefault_def Let_def)

lemma dispatch_no_eof:
  "no_eof (acc_of ctx) \<Longrightarrow> no_eof (acc_of (dispatch ctx (Some ch) l c))"
  by (cases ctx)
     (simp_all add: tokenizeInitial_def tokenizePrevL_def tokenizePrevR_def tokenizePrevAnd_def
        tokenizePrevOr_def tokenizeSpace_def tokenizeWord_def tokenizeWordQ_def
        tokenizeWordDQ_def tokenizeDefault_no_eof)

lemma loop_no_eof: "no_eof (acc_of (loop INITIAL xs))"
proof -
  have "no_eof (acc_of (loop INITIAL xs))"
    using loop_invariant [where P = "\<lambda>ctx pre. no_eof (acc_of ctx)" and ctx = INITIAL and pre = "[]" and xs = xs]
    by (simp add: dispatch_no_eof)
  then show ?thesis .
qed

lemma tokenizeDefault_None: "tokenizeDefault None l c acc = DEFAULT (acc @ [EOF \<lparr>line = l, column = c\<rparr> \<lparr>line = l, column = c\<rparr>])"
  by (simp add: tokenizeDefault_def Let_def)

lemma finish_simps:
  "finish INITIAL = DEFAULT [EOF eof_position eof_position]"
  "finish (ERROR err) = ERROR err"
  "finish (PREV_L acc s) = DEFAULT (acc @ [L s s, EOF eof_position eof_position])"
  "finish (PREV_R acc s) = DEFAULT (acc @ [R s s, EOF eof_position eof_position])"
  "finish (PREV_AND acc s) = ERROR (UnrecognizedToken (- 1) (- 1))"
  "finish (PREV_OR acc s) = DEFAULT (acc @ [PIPE s s, EOF eof_position eof_position])"
  "finish (DEFAULT acc) = DEFAULT (acc @ [EOF eof_position eof_position])"
  "finish (SPACE_ctx acc s e) = DEFAULT (acc @ [SPACE s e, EOF eof_position eof_position])"
  "finish (WORD_ctx acc acc2 s e) = DEFAULT (acc @ [WORD acc2 s e, EOF eof_position eof_position])"
  "finish (WORD_Q_ctx acc acc2 s e) = ERROR (UnterminatedString s e)"
  "finish (WORD_DQ_ctx acc acc2 s e) = ERROR (UnterminatedString s e)"
  by (simp_all add: finish_def tokenizeInitial_def tokenizePrevL_def tokenizePrevR_def
        tokenizePrevAnd_def tokenizePrevOr_def tokenizeSpace_def tokenizeWord_def
        tokenizeWordQ_def tokenizeWordDQ_def tokenizeDefault_None eof_position_def
        js_includes_def)

lemma finish_cases: "(\<exists>err. finish ctx = ERROR err) \<or> (\<exists>acc. finish ctx = DEFAULT acc)"
  by (cases ctx) (simp_all add: finish_simps)

lemma tokenize_eq:
  "tokenize input =
     (case finish (loop INITIAL (chars input)) of
        ERROR err \<Rightarrow> Failed err
      | DEFAULT acc \<Rightarrow> Tokens acc
      | _ \<Rightarrow> MustNeverCalled)"
  by (cases "loop INITIAL (chars input)") (simp_all add: tokenize_def finish_simps)

lemma tokenize_not_thrown: "tokenize input \<noteq> MustNeverCalled"
  using finish_cases [of "loop INITIAL (chars input)"]
  by (auto simp: tokenize_eq)

lemma tokenize_finish:
  "tokenize input = Tokens ts \<Longrightarrow> finish (loop INITIAL (chars input)) = DEFAULT ts"
  using finish_cases [of "loop INITIAL (chars input)"]
  by (auto simp: tokenize_eq)

lemma finish_eof_last:
  assumes "no_eof (acc_of ctx)" and "finish ctx = DEFAULT ts"
  shows "\<exists>front. ts = front @ [EOF eof_position eof_position] \<and> no_eof front"
  using assms by (cases ctx) (auto simp: finish_simps)

lemma tokenize_eof_last:
  assumes "tokenize input = Tokens ts"
  shows "\<exists>front. ts = front @ [EOF eof_position eof_position] \<and> no_eof front"
  using loop_no_eof tokenize_finish [OF assms] by (rule finish_eof_last)

section \<open>The loop and the end-of-input step of \<open>src/src/index.ts\<close>\<close>

lemma loop_idx_invariant:
  assumes "P ctx pre"
    and "\<And>err pre. P (ERROR_idx err) pre"
    and "\<And>ctx pre ch l c. P ctx pre \<Longrightarrow> P (dispatch_idx ctx (Some ch) l c) (pre @ [(ch, l, c)])"
  shows "P (loop_idx ctx xs) (pre @ xs)"
  using assms(1)
proof (induction xs arbitrary: ctx pre)
  case Nil
  then show ?case by simp
next
  case (Cons x xs)
  obtain ch l c where x: "x = (ch, l, c)" by (cases x)
  have step: "P (dispatch_idx ctx (Some ch) l c) (pre @ [(ch, l, c)])"
    using Cons.prems by (rule assms(3))
  show ?case
  proof (cases "\<exists>err. dispatch_idx ctx (Some ch) l c = ERROR_idx err")
    case True
    then show ?thesis using assms(2) by (auto simp: x)
  next
    case False
    then have "loop_idx ctx (x # xs) = loop_idx (dispatch_idx ctx (Some ch) l c) xs"
      by (simp add: x split: TokenizerContext_idx.splits)
    moreover have "P (loop_idx (dispatch_idx ctx (Some ch) l c) xs) ((pre @ [(ch, l, c)]) @ xs)"
      using step by (rule Cons.IH)
    ultimately show ?thesis by (simp add: x)
  qed
qed

lemma loop_idx_ERROR [simp]: "loop_idx (ERROR_idx err) xs = ERROR_idx err"
  by (induction xs) auto


lemma tokenizeDefault_idx_no_eof:
  "no_eof acc \<Longrightarrow> no_eof (acc_of_idx (tokenizeDefault_idx (Some ch) l c acc))"
  by (simp add: tokenizeDefault_idx_def Let_def)

lemma dispatch_idx_no_eof:
  "no_eof (acc_of_idx ctx) \<Longrightarrow> no_eof (acc_of_idx (dispatch_idx ctx (Some ch) l c))"
  by (cases ctx)
     (simp_all add: tokenizeInitial_idx_def tokenizePrevL_idx_def tokenizePrevR_idx_def
        tokenizePrevAnd_idx_def tokenizePrevOr_idx_def tokenizeSpace_idx_def tokenizeWord_idx_def
        tokenizeWordQ_idx_def tokenizeWordDQ_idx_def tokenizeDefault_idx_no_eof)

lemma loop_idx_no_eof: "no_eof (acc_of_idx (loop_idx INITIAL_idx xs))"
  using loop_idx_invariant [where P = "\<lambda>ctx pre. no_eof (acc_of_idx ctx)"
      and ctx = INITIAL_idx and pre = "[]" and xs = xs]
  by (simp add: dispatch_idx_no_eof)

lemma tokenizeDefault_idx_None:
  "tokenizeDefault_idx None l c acc =
     DEFAULT_idx (acc @ [EOF \<lparr>line = l, column = c\<rparr> \<lparr>line = l, column = c\<rparr>])"
  by (simp add: tokenizeDefault_idx_def Let_def)

lemma finish_idx_simps:
  "finish_idx INITIAL_idx = DEFAULT_idx [EOF eof_position eof_position]"
  "finish_idx (ERROR_idx err) = ERROR_idx err"
  "finish_idx (SPACE_idx acc) = DEFAULT_idx (acc @ [EOF eof_position eof_position])"
  "finish_idx (PREV_L_idx acc s) = DEFAULT_idx (acc @ [L s s, EOF eof_position eof_position])"
  "finish_idx (PREV_R_idx acc s) = DEFAULT_idx (acc @ [R s s, EOF eof_position eof_position])"
  "finish_idx (PREV_AND_idx acc s) = ERROR_idx (UnrecognizedToken_idx (- 1) (- 1))"
  "finish_idx (PREV_OR_idx acc s) = DEFAULT_idx (acc @ [PIPE s s, EOF eof_position eof_position])"
  "finish_idx (DEFAULT_idx acc) = DEFAULT_idx (acc @ [EOF eof_position eof_position])"
  "finish_idx (WORD_idx acc acc2 s e) =
     DEFAULT_idx (acc @ [WORD acc2 s e, EOF eof_position eof_position])"
  "finish_idx (WORD_Q_idx acc acc2 s) = ERROR_idx (UnterminatedString_idx (- 1) (- 1))"
  "finish_idx (WORD_DQ_idx acc acc2 s) = ERROR_idx (UnterminatedString_idx (- 1) (- 1))"
  by (simp_all add: finish_idx_def tokenizeInitial_idx_def tokenizePrevL_idx_def
        tokenizePrevR_idx_def tokenizePrevAnd_idx_def tokenizePrevOr_idx_def
        tokenizeSpace_idx_def tokenizeWord_idx_def tokenizeWordQ_idx_def tokenizeWordDQ_idx_def
        tokenizeDefault_idx_None eof_position_def js_includes_def)

lemma finish_idx_cases:
  "(\<exists>err. finish_idx ctx = ERROR_idx err) \<or> (\<exists>acc. finish_idx ctx = DEFAULT_idx acc)"
  by (cases ctx) (simp_all add: finish_idx_simps)


lemma tokenize_idx_eq:
  "tokenize_idx input =
     (case finish_idx (loop_idx INITIAL_idx (chars_idx input)) of
        ERROR_idx err \<Rightarrow> Failed err
      | DEFAULT_idx acc \<Rightarrow> Tokens acc
      | _ \<Rightarrow> MustNeverCalled)"
  by (cases "loop_idx INITIAL_idx (chars_idx input)") (simp_all add: tokenize_idx_def finish_idx_simps)

lemma tokenize_idx_not_thrown: "tokenize_idx input \<noteq> MustNeverCalled"
  using finish_idx_cases [of "loop_idx INITIAL_idx (chars_idx input)"]
  by (auto simp: tokenize_idx_eq)

lemma tokenize_idx_finish:
  "tokenize_idx input = Tokens ts \<Longrightarrow>
   finish_idx (loop_idx INITIAL_idx (chars_idx input)) = DEFAULT_idx ts"
  using finish_idx_cases [of "loop_idx INITIAL_idx (chars_idx input)"]
  by (auto simp: tokenize_idx_eq)

lemma finish_idx_eof_last:
  assumes "no_eof (acc_of_idx ctx)" and "finish_idx ctx = DEFAULT_idx ts"
  shows "\<exists>front. ts = front @ [EOF eof_position eof_position] \<and> no_eof front"
  using assms by (cases ctx) (auto simp: finish_idx_simps)

lemma tokenize_idx_eof_last:
  assumes "tokenize_idx input = Tokens ts"
  shows "\<exists>front. ts = front @ [EOF eof_position eof_position] \<and> no_eof front"
  using loop_idx_no_eof tokenize_idx_finish [OF assms] by (rule finish_idx_eof_last)

section \<open>Outcomes of \<open>tokenize\<close>\<close>

lemma result_cases:
  obtains ts where "r = Tokens ts" | err where "r = Failed err" | "r = MustNeverCalled"
  by (cases r) auto

lemma eof_last_shape:
  assumes "ts = front @ [EOF p p]" and "no_eof front"
  shows "ts \<noteq> [] \<and> is_EOF (last ts) \<and> length (filter is_EOF ts) = 1"
proof -
  from assms(2) have "filter is_EOF front = []"
    by (auto simp: no_eof_def filter_empty_conv)
  with assms(1) show ?thesis by simp
qed

text \<open>
  C1. For every input, \<open>tokenize\<close> (a total function: the loop runs once over the finite
  character stream) returns either a token list or one error value, never the exception
  and, by the result type, never both. A returned list is not empty, its last token is
  \<open>EOF\<close>, and it holds exactly one \<open>EOF\<close>. This holds for both variants.
\<close>

theorem tokenize_outcome:
  "((\<exists>ts. tokenize input = Tokens ts \<and> ts \<noteq> [] \<and> is_EOF (last ts)
          \<and> length (filter is_EOF ts) = 1)
     \<or> (\<exists>err. tokenize input = Failed err))
   \<and> ((\<exists>ts. tokenize_idx input = Tokens ts \<and> ts \<noteq> [] \<and> is_EOF (last ts)
          \<and> length (filter is_EOF ts) = 1)
     \<or> (\<exists>err. tokenize_idx input = Failed err))"
proof
  show "(\<exists>ts. tokenize input = Tokens ts \<and> ts \<noteq> [] \<and> is_EOF (last ts)
          \<and> length (filter is_EOF ts) = 1)
     \<or> (\<exists>err. tokenize input = Failed err)"
  proof (cases "tokenize input" rule: result_cases)
    case (1 ts)
    from tokenize_eof_last [OF 1] obtain front
      where "ts = front @ [EOF eof_position eof_position]" and "no_eof front" by blast
    then have "ts \<noteq> [] \<and> is_EOF (last ts) \<and> length (filter is_EOF ts) = 1"
      by (rule eof_last_shape)
    with 1 show ?thesis by simp
  next
    case (2 err)
    then show ?thesis by simp
  next
    case 3
    then show ?thesis by (simp add: tokenize_not_thrown)
  qed
  show "(\<exists>ts. tokenize_idx input = Tokens ts \<and> ts \<noteq> [] \<and> is_EOF (last ts)
          \<and> length (filter is_EOF ts) = 1)
     \<or> (\<exists>err. tokenize_idx input = Failed err)"
  proof (cases "tokenize_idx input" rule: result_cases)
    case (1 ts)
    from tokenize_idx_eof_last [OF 1] obtain front
      where "ts = front @ [EOF eof_position eof_position]" and "no_eof front" by blast
    then have "ts \<noteq> [] \<and> is_EOF (last ts) \<and> length (filter is_EOF ts) = 1"
      by (rule eof_last_shape)
    with 1 show ?thesis by simp
  next
    case (2 err)
    then show ?thesis by simp
  next
    case 3
    then show ?thesis by (simp add: tokenize_idx_not_thrown)
  qed
qed

lemma finish_keeps_acc:
  "(\<exists>err. finish ctx = ERROR err) \<or> (\<exists>rest. finish ctx = DEFAULT (acc_of ctx @ rest))"
  by (cases ctx) (simp_all add: finish_simps)

lemma finish_idx_keeps_acc:
  "(\<exists>err. finish_idx ctx = ERROR_idx err)
   \<or> (\<exists>rest. finish_idx ctx = DEFAULT_idx (acc_of_idx ctx @ rest))"
  by (cases ctx) (simp_all add: finish_idx_simps)

text \<open>
  C8. Whatever the context, the end-of-input step yields an \<open>ERROR\<close> context or a
  \<open>DEFAULT\<close> context whose token list extends the list the context carried, so
  \<open>tokenize\<close> never reaches \<open>throw new Error("must never called")\<close>. This holds for both
  variants.
\<close>

theorem final_state:
  "((\<exists>err. finish ctx = ERROR err) \<or> (\<exists>rest. finish ctx = DEFAULT (acc_of ctx @ rest)))
   \<and> tokenize input \<noteq> MustNeverCalled
   \<and> ((\<exists>err. finish_idx ctx' = ERROR_idx err)
      \<or> (\<exists>rest. finish_idx ctx' = DEFAULT_idx (acc_of_idx ctx' @ rest)))
   \<and> tokenize_idx input \<noteq> MustNeverCalled"
  using finish_keeps_acc [of ctx] finish_idx_keeps_acc [of ctx'] tokenize_not_thrown [of input]
    tokenize_idx_not_thrown [of input]
  by blast

section \<open>The \<open>EOF\<close> token\<close>

text \<open>
  C3, as stated, fails: the \<open>EOF\<close> token of the empty input is not at line 1, column 0,
  and the \<open>EOF\<close> token of \<open>"a"\<close> is not at line 1, column 1; both carry the coordinates
  \<open>-1\<close>, \<open>-1\<close> that \<open>tokenize\<close> passes to the end-of-input step.
\<close>

theorem eof_range_counterexample:
  "tokenize [] = Tokens [EOF \<lparr>line = - 1, column = - 1\<rparr> \<lparr>line = - 1, column = - 1\<rparr>]
   \<and> tokenize [] \<noteq> Tokens [EOF \<lparr>line = 1, column = 0\<rparr> \<lparr>line = 1, column = 0\<rparr>]
   \<and> tokenize ''a'' = Tokens
       [WORD ''a'' \<lparr>line = 1, column = 0\<rparr> \<lparr>line = 1, column = 0\<rparr>,
        EOF \<lparr>line = - 1, column = - 1\<rparr> \<lparr>line = - 1, column = - 1\<rparr>]
   \<and> tokenize ''a'' \<noteq> Tokens
       [WORD ''a'' \<lparr>line = 1, column = 0\<rparr> \<lparr>line = 1, column = 0\<rparr>,
        EOF \<lparr>line = 1, column = 1\<rparr> \<lparr>line = 1, column = 1\<rparr>]"
  by code_simp

text \<open>
  C3, amended. On every input on which \<open>tokenize\<close> succeeds, the last token is an
  \<open>EOF\<close> token whose range is the zero-width point with start and end at line \<open>-1\<close>,
  column \<open>-1\<close>, and no earlier token of the list is an \<open>EOF\<close>.
\<close>

theorem eof_range_amended:
  assumes "tokenize input = Tokens ts"
  shows "\<exists>front. ts = front @ [EOF \<lparr>line = - 1, column = - 1\<rparr> \<lparr>line = - 1, column = - 1\<rparr>]
           \<and> (\<forall>t \<in> set front. \<not> is_EOF t)"
  using tokenize_eof_last [OF assms] by (simp add: eof_position_def no_eof_def)

theorem eof_range_amended_witness:
  "tokenize ''(a'' = Tokens
     [LPAREN \<lparr>line = 1, column = 0\<rparr> \<lparr>line = 1, column = 0\<rparr>,
      WORD ''a'' \<lparr>line = 1, column = 1\<rparr> \<lparr>line = 1, column = 1\<rparr>,
      EOF \<lparr>line = - 1, column = - 1\<rparr> \<lparr>line = - 1, column = - 1\<rparr>]
   \<and> (\<exists>front.
        [LPAREN \<lparr>line = 1, column = 0\<rparr> \<lparr>line = 1, column = 0\<rparr>,
         WORD ''a'' \<lparr>line = 1, column = 1\<rparr> \<lparr>line = 1, column = 1\<rparr>,
         EOF \<lparr>line = - 1, column = - 1\<rparr> \<lparr>line = - 1, column = - 1\<rparr>]
          = front @ [EOF \<lparr>line = - 1, column = - 1\<rparr> \<lparr>line = - 1, column = - 1\<rparr>]
        \<and> (\<forall>t \<in> set front. \<not> is_EOF t))"
proof -
  have h: "tokenize ''(a'' = Tokens
     [LPAREN \<lparr>line = 1, column = 0\<rparr> \<lparr>line = 1, column = 0\<rparr>,
      WORD ''a'' \<lparr>line = 1, column = 1\<rparr> \<lparr>line = 1, column = 1\<rparr>,
      EOF \<lparr>line = - 1, column = - 1\<rparr> \<lparr>line = - 1, column = - 1\<rparr>]"
    by code_simp
  from eof_range_amended [OF h] h show ?thesis by simp
qed

section \<open>Operators with one character of lookahead\<close>



section \<open>A lone \<open>&\<close>\<close>

lemma tokenize_after_lone_and:
  assumes st: "loop INITIAL (chars pre) = PREV_AND acc s"
    and x: "x \<noteq> CHR ''&''"
    and at: "chars (pre @ x # rest) ! length pre = (x, l, c)"
  shows "tokenize (pre @ x # rest) = Failed (UnrecognizedToken l c)"
proof -
  from at obtain more where "chars (pre @ x # rest) = chars pre @ (x, l, c) # more"
    using chars_nth_split by blast
  then have "loop INITIAL (chars (pre @ x # rest)) = loop (PREV_AND acc s) ((x, l, c) # more)"
    by (simp add: loop_append st)
  also have "\<dots> = ERROR (UnrecognizedToken l c)"
    using x by (simp add: tokenizePrevAnd_def)
  finally show ?thesis by (simp add: tokenize_def)
qed

lemma tokenize_ends_lone_and:
  assumes "loop INITIAL (chars input) = PREV_AND acc s"
  shows "tokenize input = Failed (UnrecognizedToken (- 1) (- 1))"
  using assms by (simp add: tokenize_eq finish_simps)






text \<open>
  On \<open>src/unnamed/part_000\<close>, and for the state function of both variants: in
  \<open>PREV_AND\<close> a second \<open>&\<close> appends an \<open>AND\<close> token from the stored start to the
  current position; every other character, the end-of-input marker included, gives the
  error with the message \<open>Unrecognized token\<close> whose position fields are the coordinates of
  that step. When the automaton is in \<open>PREV_AND\<close> after \<open>pre\<close>, then \<open>tokenize\<close> of
  \<open>pre\<close> followed by a character \<open>x\<close> other than \<open>&\<close> and by anything else fails with that
  error at the position of \<open>x\<close> in the character stream, and \<open>tokenize\<close> of \<open>pre\<close> alone
  fails with it at \<open>-1\<close>, \<open>-1\<close>. \<open>tokenize("a &b")\<close> fails at line 1, column 3, the position
  of \<open>b\<close>.
\<close>

lemma lone_and_part_000:
  "tokenizePrevAnd (Some CHR ''&'') l c acc s = DEFAULT (acc @ [AND s \<lparr>line = l, column = c\<rparr>])
   \<and> (ch \<noteq> Some CHR ''&'' \<longrightarrow>
        tokenizePrevAnd ch l c acc s =
          ERROR \<lparr>message = ''Unrecognized token'', err_start = \<lparr>line = l, column = c\<rparr>,
                   err_end = \<lparr>line = l, column = c\<rparr>\<rparr>)
   \<and> (loop INITIAL (chars pre) = PREV_AND acc s \<and> x \<noteq> CHR ''&''
        \<and> chars (pre @ x # rest) ! length pre = (x, l, c)
      \<longrightarrow> tokenize (pre @ x # rest) =
            Failed \<lparr>message = ''Unrecognized token'', err_start = \<lparr>line = l, column = c\<rparr>,
                     err_end = \<lparr>line = l, column = c\<rparr>\<rparr>)
   \<and> (loop INITIAL (chars pre) = PREV_AND acc s
      \<longrightarrow> tokenize pre =
            Failed \<lparr>message = ''Unrecognized token'', err_start = \<lparr>line = - 1, column = - 1\<rparr>,
                     err_end = \<lparr>line = - 1, column = - 1\<rparr>\<rparr>)
   \<and> tokenize ''a &b'' =
        Failed \<lparr>message = ''Unrecognized token'', err_start = \<lparr>line = 1, column = 3\<rparr>,
                 err_end = \<lparr>line = 1, column = 3\<rparr>\<rparr>
   \<and> tokenizePrevAnd_idx (Some CHR ''&'') l c acc s
       = DEFAULT_idx (acc @ [AND s \<lparr>line = l, column = c\<rparr>])
   \<and> (ch \<noteq> Some CHR ''&'' \<longrightarrow>
        tokenizePrevAnd_idx ch l c acc s =
          ERROR_idx \<lparr>message_idx = ''Unrecognized token'', line_idx = l, column_idx = c\<rparr>)
   \<and> tokenize_idx ''a &b'' =
        Failed \<lparr>message_idx = ''Unrecognized token'', line_idx = 1, column_idx = 3\<rparr>"
proof -
  have ex: "tokenize ''a &b'' =
        Failed \<lparr>message = ''Unrecognized token'', err_start = \<lparr>line = 1, column = 3\<rparr>,
                 err_end = \<lparr>line = 1, column = 3\<rparr>\<rparr>"
    by code_simp
  have ex_idx: "tokenize_idx ''a &b'' =
        Failed \<lparr>message_idx = ''Unrecognized token'', line_idx = 1, column_idx = 3\<rparr>"
    by code_simp
  show ?thesis
    using ex ex_idx tokenize_after_lone_and [of pre acc s x rest l c]
      tokenize_ends_lone_and [of pre acc s]
    by (simp add: tokenizePrevAnd_def tokenizePrevAnd_idx_def UnrecognizedToken_def
        UnrecognizedToken_idx_def)
qed

text \<open>
  C6 on \<open>src/src/index.ts\<close>: the claim says that any character other than \<open>&\<close> after a
  lone \<open>&\<close> makes \<open>tokenize\<close> return \<open>UnrecognizedToken\<close> at that character's position.
  The character stream of this variant drops every newline, so on the input \<open>&\<close>,
  newline, \<open>&\<close> the automaton sees two \<open>&\<close> in a row and \<open>tokenize\<close> returns an \<open>AND\<close>
  token from line 1, column 0 to line 2, column 0, then \<open>EOF\<close>. On
  \<open>src/unnamed/part_000\<close>, which gives each line its newline back, the same input fails
  with \<open>Unrecognized token\<close> at line 1, column 1, the position of the newline.
\<close>

theorem lone_and_idx_failing_input:
  "chars_idx [CHR ''&'', ch_nl, CHR ''&''] = [(CHR ''&'', 1, 0), (CHR ''&'', 2, 0)]
   \<and> tokenize_idx [CHR ''&'', ch_nl, CHR ''&''] = Tokens
       [AND \<lparr>line = 1, column = 0\<rparr> \<lparr>line = 2, column = 0\<rparr>,
        EOF \<lparr>line = - 1, column = - 1\<rparr> \<lparr>line = - 1, column = - 1\<rparr>]
   \<and> chars [CHR ''&'', ch_nl, CHR ''&'']
       = [(CHR ''&'', 1, 0), (ch_nl, 1, 1), (CHR ''&'', 2, 0)]
   \<and> tokenize [CHR ''&'', ch_nl, CHR ''&''] =
       Failed \<lparr>message = ''Unrecognized token'', err_start = \<lparr>line = 1, column = 1\<rparr>,
                err_end = \<lparr>line = 1, column = 1\<rparr>\<rparr>"
  by code_simp




section \<open>Quoted strings\<close>

text \<open>
  C10. \<open>tokenize("''")\<close> returns a \<open>WORD_Q\<close> token with the empty body and then
  \<open>EOF\<close>; the input of two double quotes returns a \<open>WORD_DQ\<close> token with the empty
  body and then \<open>EOF\<close>.
\<close>

theorem empty_quoted_strings:
  "tokenize [ch_quote, ch_quote] = Tokens
     [WORD_Q [] \<lparr>line = 1, column = 0\<rparr> \<lparr>line = 1, column = 1\<rparr>,
      EOF \<lparr>line = - 1, column = - 1\<rparr> \<lparr>line = - 1, column = - 1\<rparr>]
   \<and> tokenize [ch_dquote, ch_dquote] = Tokens
     [WORD_DQ [] \<lparr>line = 1, column = 0\<rparr> \<lparr>line = 1, column = 1\<rparr>,
      EOF \<lparr>line = - 1, column = - 1\<rparr> \<lparr>line = - 1, column = - 1\<rparr>]"
  by code_simp

text \<open>
  On \<open>src/unnamed/part_000\<close> the double-quote state keeps every character but the double
  quote and stays where it is; the double quote appends the \<open>WORD_DQ\<close> token with the
  accumulated text and gives the \<open>DEFAULT\<close> context. So a string without double quotes,
  put between double quotes, is one \<open>WORD_DQ\<close> token with that body, then \<open>EOF\<close>.
\<close>

lemma tokenizeWordDQ_steps:
  "tokenizeWordDQ (Some ch_dquote) l c acc acc2 s e
     = DEFAULT (acc @ [WORD_DQ acc2 s \<lparr>line = l, column = c\<rparr>])"
  "ch \<noteq> ch_dquote \<Longrightarrow>
   tokenizeWordDQ (Some ch) l c acc acc2 s e = WORD_DQ_ctx acc (acc2 @ [ch]) s \<lparr>line = l, column = c\<rparr>"
  by (simp_all add: tokenizeWordDQ_def char_string_def)

lemma loop_inside_dquote:
  "ch_dquote \<notin> fst ` set xs \<Longrightarrow>
   \<exists>e'. loop (WORD_DQ_ctx acc acc2 s e) xs = WORD_DQ_ctx acc (acc2 @ map fst xs) s e'"
proof (induction xs arbitrary: acc2 e)
  case Nil
  show ?case by simp
next
  case (Cons x xs)
  obtain ch l c where x: "x = (ch, l, c)" by (cases x)
  with Cons.prems have ch: "ch \<noteq> ch_dquote" and rest: "ch_dquote \<notin> fst ` set xs" by auto
  from Cons.IH [OF rest, of "acc2 @ [ch]" "\<lparr>line = l, column = c\<rparr>"] ch
  show ?case by (simp add: x tokenizeWordDQ_steps)
qed

lemma double_quoted_string:
  assumes "ch_dquote \<notin> set s"
  shows "\<exists>e. tokenize (ch_dquote # s @ [ch_dquote])
           = Tokens [WORD_DQ s \<lparr>line = 1, column = 0\<rparr> e, EOF eof_position eof_position]"
proof -
  define l where "l = fst (advance (1, 1) s)"
  define c where "c = snd (advance (1, 1) s)"
  have cs: "chars (ch_dquote # s @ [ch_dquote])
      = (ch_dquote, 1, 0) # number 1 1 s @ [(ch_dquote, l, c)]"
    by (simp add: chars_number number_append l_def c_def)
  have enter: "tokenizeInitial (Some ch_dquote) 1 0
      = WORD_DQ_ctx [] [] \<lparr>line = 1, column = 0\<rparr> \<lparr>line = 1, column = 0\<rparr>"
    by (simp add: tokenizeInitial_def tokenizeDefault_def js_includes_def whitespace_def Let_def)
  from assms have "ch_dquote \<notin> fst ` set (number 1 1 s)"
    by (metis map_fst_number set_map)
  then obtain e' where inside:
    "loop (WORD_DQ_ctx [] [] \<lparr>line = 1, column = 0\<rparr> \<lparr>line = 1, column = 0\<rparr>) (number 1 1 s)
       = WORD_DQ_ctx [] ([] @ map fst (number 1 1 s)) \<lparr>line = 1, column = 0\<rparr> e'"
    using loop_inside_dquote by blast
  have "loop INITIAL (chars (ch_dquote # s @ [ch_dquote]))
      = DEFAULT [WORD_DQ s \<lparr>line = 1, column = 0\<rparr> \<lparr>line = l, column = c\<rparr>]"
    by (simp add: cs enter loop_append inside tokenizeWordDQ_steps)
  then show ?thesis
    by (simp add: tokenize_eq finish_simps)
qed

text \<open>
  C2 on \<open>src/src/index.ts\<close>: inside a double-quoted string the first ordinary character
  moves the automaton to the single-quote state, so the closing double quote is
  accumulated instead of ending the string, and \<open>tokenize\<close> of a double quote, \<open>a\<close>, a
  double quote returns the unterminated-string error.
\<close>

theorem double_quote_idx_failing_input:
  "tokenizeWordDQ_idx (Some CHR ''a'') 1 1 [] [] \<lparr>line = 1, column = 0\<rparr>
     = WORD_Q_idx [] ''a'' \<lparr>line = 1, column = 0\<rparr>
   \<and> tokenize_idx [ch_dquote, CHR ''a'', ch_dquote]
     = Failed (UnterminatedString_idx (- 1) (- 1))"
  by code_simp

section \<open>Unterminated strings\<close>

lemma open_quote_start: "open_quote q [] \<lparr>line = l, column = c\<rparr> \<lparr>line = l, column = c\<rparr> (pre @ [(q, l, c)])"
  unfolding open_quote_def by (intro exI [of _ pre] exI [of _ "[]"]) simp

lemma open_quote_extend:
  assumes "open_quote q acc2 s e cs" and "ch \<noteq> q"
  shows "open_quote q (acc2 @ [ch]) s \<lparr>line = l, column = c\<rparr> (cs @ [(ch, l, c)])"
proof -
  from assms(1) obtain pre rest where
    "cs = pre @ (q, line s, column s) # rest" "map fst rest = acc2" "q \<notin> set acc2"
    unfolding open_quote_def by blast
  with assms(2) show ?thesis
    unfolding open_quote_def
    by (intro exI [of _ pre] exI [of _ "rest @ [(ch, l, c)]"]) auto
qed

lemma tokenizeDefault_quote_inv:
  "quote_inv (tokenizeDefault (Some ch) l c acc) (pre @ [(ch, l, c)])"
  by (simp add: tokenizeDefault_def Let_def open_quote_start char_string_def)

lemma dispatch_quote_inv:
  assumes "quote_inv ctx pre"
  shows "quote_inv (dispatch ctx (Some ch) l c) (pre @ [(ch, l, c)])"
proof (cases ctx)
  case (WORD_Q_ctx acc acc2 s e)
  with assms open_quote_extend [of ch_quote acc2 s e pre ch l c] show ?thesis
    by (auto simp: tokenizeWordQ_def char_string_def)
next
  case (WORD_DQ_ctx acc acc2 s e)
  with assms open_quote_extend [of ch_dquote acc2 s e pre ch l c] show ?thesis
    by (auto simp: tokenizeWordDQ_def char_string_def)
qed (simp_all add: tokenizeInitial_def tokenizePrevL_def tokenizePrevR_def tokenizePrevAnd_def
      tokenizePrevOr_def tokenizeSpace_def tokenizeWord_def tokenizeDefault_quote_inv)

lemma loop_quote_inv: "quote_inv (loop INITIAL xs) xs"
  using loop_invariant [where P = quote_inv and ctx = INITIAL and pre = "[]" and xs = xs]
  by (simp add: dispatch_quote_inv)

text \<open>
  C4. When the loop ends in the single-quote state (or the double-quote state) with
  start \<open>s\<close> and end \<open>e\<close>, \<open>tokenize\<close> returns the error whose message is
  \<open>Unterminated string\<close>, whose \<open>start\<close> is \<open>s\<close> and whose \<open>end\<close> is \<open>e\<close>; \<open>s\<close> is the
  position of a single quote (a double quote) of the character stream, the characters
  after it up to the end of the input are the accumulated text and hold no such quote,
  and \<open>e\<close> is the position of the last character of the stream.
  \<open>tokenize("echo 'hi")\<close> returns the error from line 1, column 5, where the quote is, to
  line 1, column 7, where the final \<open>i\<close> is.
\<close>

theorem unterminated_string_range:
  "(loop INITIAL (chars input) = WORD_Q_ctx acc acc2 s e \<longrightarrow>
      tokenize input = Failed \<lparr>message = ''Unterminated string'', err_start = s, err_end = e\<rparr>
      \<and> (\<exists>pre rest. chars input = pre @ (ch_quote, line s, column s) # rest
            \<and> map fst rest = acc2 \<and> ch_quote \<notin> set acc2)
      \<and> e = pos (last (chars input)))
   \<and> (loop INITIAL (chars input) = WORD_DQ_ctx acc acc2 s e \<longrightarrow>
      tokenize input = Failed \<lparr>message = ''Unterminated string'', err_start = s, err_end = e\<rparr>
      \<and> (\<exists>pre rest. chars input = pre @ (ch_dquote, line s, column s) # rest
            \<and> map fst rest = acc2 \<and> ch_dquote \<notin> set acc2)
      \<and> e = pos (last (chars input)))
   \<and> tokenize (''echo '' @ [ch_quote] @ ''hi'')
       = Failed \<lparr>message = ''Unterminated string'', err_start = \<lparr>line = 1, column = 5\<rparr>,
                  err_end = \<lparr>line = 1, column = 7\<rparr>\<rparr>
   \<and> chars (''echo '' @ [ch_quote] @ ''hi'') ! 5 = (ch_quote, 1, 5)
   \<and> last (chars (''echo '' @ [ch_quote] @ ''hi'')) = (CHR ''i'', 1, 7)"
proof -
  have ex: "tokenize (''echo '' @ [ch_quote] @ ''hi'')
       = Failed \<lparr>message = ''Unterminated string'', err_start = \<lparr>line = 1, column = 5\<rparr>,
                  err_end = \<lparr>line = 1, column = 7\<rparr>\<rparr>
   \<and> chars (''echo '' @ [ch_quote] @ ''hi'') ! 5 = (ch_quote, 1, 5)
   \<and> last (chars (''echo '' @ [ch_quote] @ ''hi'')) = (CHR ''i'', 1, 7)"
    by code_simp
  have q: "tokenize input = Failed \<lparr>message = ''Unterminated string'', err_start = s, err_end = e\<rparr>
      \<and> (\<exists>pre rest. chars input = pre @ (ch_quote, line s, column s) # rest
            \<and> map fst rest = acc2 \<and> ch_quote \<notin> set acc2)
      \<and> e = pos (last (chars input))"
    if st: "loop INITIAL (chars input) = WORD_Q_ctx acc acc2 s e"
  proof -
    from loop_quote_inv [of "chars input"] st
    have "open_quote ch_quote acc2 s e (chars input)" by simp
    moreover from st have "tokenize input
        = Failed \<lparr>message = ''Unterminated string'', err_start = s, err_end = e\<rparr>"
      by (simp add: tokenize_eq finish_simps UnterminatedString_def)
    ultimately show ?thesis unfolding open_quote_def by blast
  qed
  have dq: "tokenize input = Failed \<lparr>message = ''Unterminated string'', err_start = s, err_end = e\<rparr>
      \<and> (\<exists>pre rest. chars input = pre @ (ch_dquote, line s, column s) # rest
            \<and> map fst rest = acc2 \<and> ch_dquote \<notin> set acc2)
      \<and> e = pos (last (chars input))"
    if st: "loop INITIAL (chars input) = WORD_DQ_ctx acc acc2 s e"
  proof -
    from loop_quote_inv [of "chars input"] st
    have "open_quote ch_dquote acc2 s e (chars input)" by simp
    moreover from st have "tokenize input
        = Failed \<lparr>message = ''Unterminated string'', err_start = s, err_end = e\<rparr>"
      by (simp add: tokenize_eq finish_simps UnterminatedString_def)
    ultimately show ?thesis unfolding open_quote_def by blast
  qed
  from ex q dq show ?thesis by blast
qed

theorem unterminated_string_range_witness:
  "loop INITIAL (chars [CHR ''('', ch_dquote, CHR ''a'', ch_nl, CHR ''b''])
     = WORD_DQ_ctx [LPAREN \<lparr>line = 1, column = 0\<rparr> \<lparr>line = 1, column = 0\<rparr>]
         [CHR ''a'', ch_nl, CHR ''b''] \<lparr>line = 1, column = 1\<rparr> \<lparr>line = 2, column = 0\<rparr>
   \<and> loop INITIAL (chars [ch_quote, CHR ''a''])
     = WORD_Q_ctx [] ''a'' \<lparr>line = 1, column = 0\<rparr> \<lparr>line = 1, column = 1\<rparr>
   \<and> tokenize [CHR ''('', ch_dquote, CHR ''a'', ch_nl, CHR ''b'']
     = Failed \<lparr>message = ''Unterminated string'', err_start = \<lparr>line = 1, column = 1\<rparr>,
                err_end = \<lparr>line = 2, column = 0\<rparr>\<rparr>
   \<and> tokenize [ch_quote, CHR ''a'']
     = Failed \<lparr>message = ''Unterminated string'', err_start = \<lparr>line = 1, column = 0\<rparr>,
                err_end = \<lparr>line = 1, column = 1\<rparr>\<rparr>"
proof -
  have dq: "loop INITIAL (chars [CHR ''('', ch_dquote, CHR ''a'', ch_nl, CHR ''b''])
     = WORD_DQ_ctx [LPAREN \<lparr>line = 1, column = 0\<rparr> \<lparr>line = 1, column = 0\<rparr>]
         [CHR ''a'', ch_nl, CHR ''b''] \<lparr>line = 1, column = 1\<rparr> \<lparr>line = 2, column = 0\<rparr>"
    by code_simp
  have q: "loop INITIAL (chars [ch_quote, CHR ''a''])
     = WORD_Q_ctx [] ''a'' \<lparr>line = 1, column = 0\<rparr> \<lparr>line = 1, column = 1\<rparr>"
    by code_simp
  show ?thesis
    using dq q
      unterminated_string_range [of "[CHR ''('', ch_dquote, CHR ''a'', ch_nl, CHR ''b'']"
        "[LPAREN \<lparr>line = 1, column = 0\<rparr> \<lparr>line = 1, column = 0\<rparr>]"
        "[CHR ''a'', ch_nl, CHR ''b'']" "\<lparr>line = 1, column = 1\<rparr>" "\<lparr>line = 2, column = 0\<rparr>"]
      unterminated_string_range [of "[ch_quote, CHR ''a'']" "[]" "''a''"
        "\<lparr>line = 1, column = 0\<rparr>" "\<lparr>line = 1, column = 1\<rparr>"]
    by simp
qed

section \<open>Position ranges tile the input\<close>

lemma tiled_Nil: "tiled [] []"
  by (simp add: tiled_def)

lemma tiled_snoc:
  assumes "tiled acc front" and "covers t seg"
  shows "tiled (acc @ [t]) (front @ seg)"
proof -
  from assms(1) obtain segs where segs: "list_all2 covers acc segs" "concat segs = front"
    unfolding tiled_def by blast
  from segs(1) assms(2) have "list_all2 covers (acc @ [t]) (segs @ [seg])"
    by (simp add: list_all2_appendI)
  moreover from segs(2) have "concat (segs @ [seg]) = front @ seg" by simp
  ultimately show ?thesis unfolding tiled_def by blast
qed

lemma open_at_close:
  assumes "open_at acc s e pre" and "start t = s" and "endp t = e"
  shows "tiled (acc @ [t]) pre"
proof -
  from assms(1) obtain front seg where
    "pre = front @ seg" "tiled acc front" "seg \<noteq> []" "s = pos (hd seg)" "e = pos (last seg)"
    unfolding open_at_def by blast
  with assms(2,3) show ?thesis by (simp add: tiled_snoc covers_def)
qed

lemma open_at_start:
  assumes "tiled acc pre"
  shows "open_at acc (pos x) (pos x) (pre @ [x])"
  unfolding open_at_def using assms by (intro exI [of _ pre] exI [of _ "[x]"]) simp

lemma open_at_extend:
  assumes "open_at acc s e pre"
  shows "open_at acc s (pos x) (pre @ [x])"
proof -
  from assms obtain front seg where
    "pre = front @ seg" "tiled acc front" "seg \<noteq> []" "s = pos (hd seg)"
    unfolding open_at_def by blast
  then show ?thesis
    unfolding open_at_def by (intro exI [of _ front] exI [of _ "seg @ [x]"]) simp
qed

lemma tiled_close_with:
  assumes "open_at acc s e pre" and "start t = s" and "endp t = pos x"
  shows "tiled (acc @ [t]) (pre @ [x])"
  using open_at_extend [OF assms(1)] assms(2,3) by (rule open_at_close)

lemma tiled_single:
  assumes "tiled acc pre" and "start t = pos x" and "endp t = pos x"
  shows "tiled (acc @ [t]) (pre @ [x])"
  using open_at_start [OF assms(1)] assms(2,3) by (rule open_at_close)

lemma tokenizeDefault_tiling:
  assumes "tiled acc pre"
  shows "tiling_inv (tokenizeDefault (Some ch) l c acc) (pre @ [(ch, l, c)])"
proof -
  have o: "open_at acc \<lparr>line = l, column = c\<rparr> \<lparr>line = l, column = c\<rparr> (pre @ [(x, l, c)])"
    for x
    using open_at_start [OF assms, of "(x, l, c)"] by simp
  have t: "tiled (acc @ [t]) (pre @ [(x, l, c)])"
    if "start t = \<lparr>line = l, column = c\<rparr>" "endp t = \<lparr>line = l, column = c\<rparr>" for t x
    using tiled_single [OF assms, of t "(x, l, c)"] that by simp
  show ?thesis
    by (simp add: tokenizeDefault_def Let_def o t)
qed

lemma tokenizeInitial_tiling:
  "tiling_inv (tokenizeInitial (Some ch) l c) ([] @ [(ch, l, c)])"
  unfolding tokenizeInitial_def by (rule tokenizeDefault_tiling) (rule tiled_Nil)

lemma tokenizePrevL_tiling:
  assumes "open_at acc s s pre"
  shows "tiling_inv (tokenizePrevL (Some ch) l c acc s) (pre @ [(ch, l, c)])"
  using tiled_close_with [OF assms, of "LL s \<lparr>line = l, column = c\<rparr>" "(ch, l, c)"]
    tokenizeDefault_tiling [OF open_at_close [OF assms, of "L s s"], of ch l c]
  by (auto simp add: tokenizePrevL_def)

lemma tokenizePrevR_tiling:
  assumes "open_at acc s s pre"
  shows "tiling_inv (tokenizePrevR (Some ch) l c acc s) (pre @ [(ch, l, c)])"
  using tiled_close_with [OF assms, of "RR s \<lparr>line = l, column = c\<rparr>" "(ch, l, c)"]
    tokenizeDefault_tiling [OF open_at_close [OF assms, of "R s s"], of ch l c]
  by (auto simp add: tokenizePrevR_def)

lemma tokenizePrevOr_tiling:
  assumes "open_at acc s s pre"
  shows "tiling_inv (tokenizePrevOr (Some ch) l c acc s) (pre @ [(ch, l, c)])"
  using tiled_close_with [OF assms, of "OR s \<lparr>line = l, column = c\<rparr>" "(ch, l, c)"]
    tokenizeDefault_tiling [OF open_at_close [OF assms, of "PIPE s s"], of ch l c]
  by (auto simp add: tokenizePrevOr_def)

lemma tokenizePrevAnd_tiling:
  assumes "open_at acc s s pre"
  shows "tiling_inv (tokenizePrevAnd (Some ch) l c acc s) (pre @ [(ch, l, c)])"
  using tiled_close_with [OF assms, of "AND s \<lparr>line = l, column = c\<rparr>" "(ch, l, c)"]
  by (auto simp add: tokenizePrevAnd_def)

lemma tokenizeSpace_tiling:
  assumes "open_at acc s e pre"
  shows "tiling_inv (tokenizeSpace (Some ch) l c acc s e) (pre @ [(ch, l, c)])"
  using open_at_extend [OF assms, of "(ch, l, c)"]
    tokenizeDefault_tiling [OF open_at_close [OF assms, of "SPACE s e"], of ch l c]
  by (auto simp add: tokenizeSpace_def)

lemma tokenizeWord_tiling:
  assumes "open_at acc s e pre"
  shows "tiling_inv (tokenizeWord (Some ch) l c acc acc2 s e) (pre @ [(ch, l, c)])"
  using open_at_extend [OF assms, of "(ch, l, c)"]
    tokenizeDefault_tiling [OF open_at_close [OF assms, of "WORD acc2 s e"], of ch l c]
  by (auto simp add: tokenizeWord_def)

lemma tokenizeWordQ_tiling:
  assumes "open_at acc s e pre"
  shows "tiling_inv (tokenizeWordQ (Some ch) l c acc acc2 s e) (pre @ [(ch, l, c)])"
  using open_at_extend [OF assms, of "(ch, l, c)"]
    tiled_close_with [OF assms, of "WORD_Q acc2 s \<lparr>line = l, column = c\<rparr>" "(ch, l, c)"]
  by (auto simp add: tokenizeWordQ_def)

lemma tokenizeWordDQ_tiling:
  assumes "open_at acc s e pre"
  shows "tiling_inv (tokenizeWordDQ (Some ch) l c acc acc2 s e) (pre @ [(ch, l, c)])"
  using open_at_extend [OF assms, of "(ch, l, c)"]
    tiled_close_with [OF assms, of "WORD_DQ acc2 s \<lparr>line = l, column = c\<rparr>" "(ch, l, c)"]
  by (auto simp add: tokenizeWordDQ_def)

lemma dispatch_tiling:
  assumes "tiling_inv ctx pre"
  shows "tiling_inv (dispatch ctx (Some ch) l c) (pre @ [(ch, l, c)])"
proof (cases ctx)
  case INITIAL
  with assms show ?thesis using tokenizeInitial_tiling [of ch l c] by simp
next
  case (DEFAULT acc)
  with assms show ?thesis by (simp add: tokenizeDefault_tiling)
qed (use assms in \<open>simp_all add: tokenizePrevL_tiling tokenizePrevR_tiling tokenizePrevOr_tiling
      tokenizePrevAnd_tiling tokenizeSpace_tiling tokenizeWord_tiling tokenizeWordQ_tiling
      tokenizeWordDQ_tiling\<close>)

lemma loop_tiling: "tiling_inv (loop INITIAL xs) xs"
  using loop_invariant [where P = tiling_inv and ctx = INITIAL and pre = "[]" and xs = xs]
  by (simp add: dispatch_tiling)

lemma finish_tiled:
  assumes "tiling_inv ctx pre" and "finish ctx = DEFAULT ts"
  shows "\<exists>front. ts = front @ [EOF eof_position eof_position] \<and> tiled front pre"
proof (cases ctx)
  case INITIAL
  with assms show ?thesis by (simp add: finish_simps tiled_Nil)
next
  case (PREV_L acc s)
  with assms have "ts = (acc @ [L s s]) @ [EOF eof_position eof_position]"
    "tiled (acc @ [L s s]) pre"
    by (simp_all add: finish_simps open_at_close)
  then show ?thesis by blast
next
  case (PREV_R acc s)
  with assms have "ts = (acc @ [R s s]) @ [EOF eof_position eof_position]"
    "tiled (acc @ [R s s]) pre"
    by (simp_all add: finish_simps open_at_close)
  then show ?thesis by blast
next
  case (PREV_OR acc s)
  with assms have "ts = (acc @ [PIPE s s]) @ [EOF eof_position eof_position]"
    "tiled (acc @ [PIPE s s]) pre"
    by (simp_all add: finish_simps open_at_close)
  then show ?thesis by blast
next
  case (SPACE_ctx acc s e)
  with assms have "ts = (acc @ [SPACE s e]) @ [EOF eof_position eof_position]"
    "tiled (acc @ [SPACE s e]) pre"
    by (simp_all add: finish_simps open_at_close)
  then show ?thesis by blast
next
  case (WORD_ctx acc acc2 s e)
  with assms have "ts = (acc @ [WORD acc2 s e]) @ [EOF eof_position eof_position]"
    "tiled (acc @ [WORD acc2 s e]) pre"
    by (simp_all add: finish_simps open_at_close)
  then show ?thesis by blast
next
  case (DEFAULT acc)
  with assms have "ts = acc @ [EOF eof_position eof_position]" "tiled acc pre"
    by (simp_all add: finish_simps)
  then show ?thesis by blast
qed (use assms in \<open>simp_all add: finish_simps\<close>)

lemma tokenize_tiled:
  assumes "tokenize input = Tokens ts"
  shows "\<exists>front. ts = front @ [EOF eof_position eof_position] \<and> tiled front (chars input)"
  using loop_tiling tokenize_finish [OF assms] by (rule finish_tiled)

lemma sorted_first:
  assumes "sorted_wrt (\<lambda>x y. pos_less (pos x) (pos y)) seg" and "x \<in> set seg"
  shows "pos_le (pos (hd seg)) (pos x)"
  using assms by (cases seg) (auto dest: pos_less_le)

lemma sorted_last:
  assumes "sorted_wrt (\<lambda>x y. pos_less (pos x) (pos y)) seg" and "x \<in> set seg"
  shows "pos_le (pos x) (pos (last seg))"
proof -
  from assms(2) have "seg \<noteq> []" by auto
  then have seg: "seg = butlast seg @ [last seg]" by simp
  with assms(1) have "\<forall>y \<in> set (butlast seg). pos_less (pos y) (pos (last seg))"
    by (metis sorted_wrt_append list.set_intros(1))
  moreover from seg assms(2) have "x \<in> set (butlast seg) \<or> x = last seg"
    by (metis Un_iff empty_iff empty_set set_ConsD set_append)
  ultimately show ?thesis by (auto dest: pos_less_le)
qed

lemma segment_filter:
  assumes sorted: "sorted_wrt (\<lambda>x y. pos_less (pos x) (pos y)) (A @ seg @ B)"
    and "seg \<noteq> []"
  shows "filter (in_range (pos (hd seg)) (pos (last seg))) (A @ seg @ B) = seg"
proof -
  from \<open>seg \<noteq> []\<close> have hd: "hd seg \<in> set seg" and last: "last seg \<in> set seg" by simp_all
  from sorted have sseg: "sorted_wrt (\<lambda>x y. pos_less (pos x) (pos y)) seg"
    and AB: "\<forall>a \<in> set A. \<forall>y \<in> set seg. pos_less (pos a) (pos y)"
    and SB: "\<forall>y \<in> set seg. \<forall>b \<in> set B. pos_less (pos y) (pos b)"
    by (auto simp: sorted_wrt_append)
  have "filter (in_range (pos (hd seg)) (pos (last seg))) A = []"
    using AB hd by (auto simp: filter_empty_conv in_range_def dest: pos_less_not_le)
  moreover have "filter (in_range (pos (hd seg)) (pos (last seg))) B = []"
    using SB last by (auto simp: filter_empty_conv in_range_def dest: pos_less_not_le)
  moreover have "filter (in_range (pos (hd seg)) (pos (last seg))) seg = seg"
    using sorted_first [OF sseg] sorted_last [OF sseg]
    by (auto simp: filter_id_conv in_range_def)
  ultimately show ?thesis by simp
qed

lemma tiles_text:
  assumes "list_all2 covers acc segs"
    and "sorted_wrt (\<lambda>x y. pos_less (pos x) (pos y)) (A @ concat segs @ B)"
  shows "concat (map (\<lambda>t. map fst (filter (in_range (start t) (endp t)) (A @ concat segs @ B))) acc)
           = map fst (concat segs)"
  using assms
proof (induction acc segs arbitrary: A rule: list_all2_induct)
  case Nil
  show ?case by simp
next
  case (Cons t acc seg segs)
  from Cons.hyps(1) have seg: "seg \<noteq> []" "start t = pos (hd seg)" "endp t = pos (last seg)"
    by (simp_all add: covers_def)
  define W where "W = A @ concat (seg # segs) @ B"
  have whole: "W = A @ seg @ (concat segs @ B)" by (simp add: W_def)
  have whole': "W = (A @ seg) @ concat segs @ B" by (simp add: W_def)
  from Cons.prems have sorted: "sorted_wrt (\<lambda>x y. pos_less (pos x) (pos y)) W"
    by (simp only: W_def)
  have f1: "filter (in_range (start t) (endp t)) W = seg"
    unfolding whole seg(2,3) using sorted seg(1) unfolding whole by (rule segment_filter)
  have f2: "concat (map (\<lambda>t. map fst (filter (in_range (start t) (endp t)) W)) acc)
      = map fst (concat segs)"
    unfolding whole' using sorted unfolding whole' by (rule Cons.IH)
  have "concat (map (\<lambda>t. map fst (filter (in_range (start t) (endp t)) W)) (t # acc))
      = map fst (concat (seg # segs))"
    using f1 f2 by simp
  then show ?case unfolding W_def .
qed

lemma tiled_text:
  assumes "tiled front (chars input)"
  shows "concat (map (\<lambda>t. source_text input (start t) (endp t)) front) = input"
proof -
  from assms obtain segs where segs: "list_all2 covers front segs" "concat segs = chars input"
    unfolding tiled_def by blast
  have "sorted_wrt (\<lambda>x y. pos_less (pos x) (pos y)) ([] @ concat segs @ [])"
    by (simp add: segs(2) chars_number sorted_number)
  with segs(1) have "concat (map (\<lambda>t. map fst (filter (in_range (start t) (endp t))
      ([] @ concat segs @ []))) front) = map fst (concat segs)"
    by (rule tiles_text)
  then show ?thesis
    by (simp add: source_text_def segs(2) chars_number)
qed

text \<open>
  C7. The source text of a position range is the text of the characters of the input
  whose positions lie between the start and the end of the range, both included, in the
  order line first, column second. On every input on which \<open>tokenize\<close> succeeds, the
  source texts of the ranges of all tokens but \<open>EOF\<close>, concatenated in output order,
  are the input.
\<close>

theorem position_coverage:
  assumes "tokenize input = Tokens ts"
  shows "concat (map (\<lambda>t. source_text input (start t) (endp t)) (filter (\<lambda>t. \<not> is_EOF t) ts))
           = input"
proof -
  from tokenize_tiled [OF assms] obtain front
    where ts: "ts = front @ [EOF eof_position eof_position]" and tiled: "tiled front (chars input)"
    by blast
  from tokenize_eof_last [OF assms] obtain front'
    where "ts = front' @ [EOF eof_position eof_position]" and "no_eof front'" by blast
  with ts have "no_eof front" by simp
  then have "filter (\<lambda>t. \<not> is_EOF t) ts = front"
    by (simp add: ts no_eof_def)
  with tiled_text [OF tiled] show ?thesis by simp
qed

theorem position_coverage_witness:
  "tokenize [CHR ''a'', ch_nl, CHR ''(''] = Tokens
     [WORD ''a'' \<lparr>line = 1, column = 0\<rparr> \<lparr>line = 1, column = 0\<rparr>,
      SPACE \<lparr>line = 1, column = 1\<rparr> \<lparr>line = 1, column = 1\<rparr>,
      LPAREN \<lparr>line = 2, column = 0\<rparr> \<lparr>line = 2, column = 0\<rparr>,
      EOF \<lparr>line = - 1, column = - 1\<rparr> \<lparr>line = - 1, column = - 1\<rparr>]
   \<and> source_text [CHR ''a'', ch_nl, CHR ''(''] \<lparr>line = 1, column = 0\<rparr> \<lparr>line = 1, column = 0\<rparr>
       @ source_text [CHR ''a'', ch_nl, CHR ''(''] \<lparr>line = 1, column = 1\<rparr> \<lparr>line = 1, column = 1\<rparr>
       @ source_text [CHR ''a'', ch_nl, CHR ''(''] \<lparr>line = 2, column = 0\<rparr> \<lparr>line = 2, column = 0\<rparr>
     = [CHR ''a'', ch_nl, CHR ''('']"
proof -
  have h: "tokenize [CHR ''a'', ch_nl, CHR ''(''] = Tokens
     [WORD ''a'' \<lparr>line = 1, column = 0\<rparr> \<lparr>line = 1, column = 0\<rparr>,
      SPACE \<lparr>line = 1, column = 1\<rparr> \<lparr>line = 1, column = 1\<rparr>,
      LPAREN \<lparr>line = 2, column = 0\<rparr> \<lparr>line = 2, column = 0\<rparr>,
      EOF \<lparr>line = - 1, column = - 1\<rparr> \<lparr>line = - 1, column = - 1\<rparr>]"
    by code_simp
  from position_coverage [OF h] h show ?thesis by simp
qed

end
